theory Spec2Isabelle
  imports Main "HOL-Library.Signed_Division"
begin

section \<open>Segment tree with lazy propagation (segment-tree.cpp)\<close>

text \<open>
  The C++ template \<^verbatim>\<open>SegTree<Node, Op>\<close> is embedded with its two template parameters
  passed as a record of operations. The size \<^verbatim>\<open>4 * n + 1\<close> of the vectors is computed as
  the compiled code computes it, in a 32-bit \<^verbatim>\<open>int\<close> with wrap-around (\<open>int32\<close>). The other
  \<^verbatim>\<open>int\<close> values are mathematical integers: on a tree that the constructor returns
  (\<open>n < 2 ^ 29\<close>) the positions and the midpoints stay below \<open>2 ^ 31\<close>, and the values
  that the instantiation adds are not bounded in the model. The division
  \<^verbatim>\<open>(st + end) / 2\<close> truncates towards zero and is \<open>sdiv\<close>. The three vectors are lists;
  \<^verbatim>\<open>operator[]\<close> outside the vector is undefined behaviour in C++ and is the outcome
  \<open>OutOfBounds\<close> of the model. A call that never returns has the outcome \<open>None\<close>.
\<close>

subsection \<open>Outcomes\<close>

datatype error =
    OutOfBounds  \<comment> \<open>an index outside a vector or outside the seed array: undefined behaviour\<close>
  | LengthError  \<comment> \<open>\<^verbatim>\<open>std::length_error\<close>, thrown by \<^verbatim>\<open>vector::resize\<close> for a negative count\<close>

type_synonym 'a outcome = "(error + 'a) option"

definition ok :: "'a \<Rightarrow> 'a outcome" where
  "ok x = Some (Inr x)"

definition fail :: "error \<Rightarrow> 'a outcome" where
  "fail e = Some (Inl e)"

definition bnd :: "'a outcome \<Rightarrow> ('a \<Rightarrow> 'b outcome) \<Rightarrow> 'b outcome" where
  "bnd m f = (case m of None \<Rightarrow> None | Some (Inl e) \<Rightarrow> Some (Inl e) | Some (Inr x) \<Rightarrow> f x)"

definition vget :: "'a list \<Rightarrow> int \<Rightarrow> 'a outcome" where
  "vget xs k = (if 0 \<le> k \<and> k < int (length xs) then ok (xs ! nat k) else fail OutOfBounds)"

definition vset :: "'a list \<Rightarrow> int \<Rightarrow> 'a \<Rightarrow> 'a list outcome" where
  "vset xs k v = (if 0 \<le> k \<and> k < int (length xs) then ok (xs[nat k := v]) else fail OutOfBounds)"

lemma bnd_mono [partial_function_mono]:
  assumes mf: "mono_option B" and mg: "\<And>y. mono_option (\<lambda>f. C y f)"
  shows "mono_option (\<lambda>f. bnd (B f) (\<lambda>y. C y f))"
proof (rule monotoneI)
  fix f g :: "'a \<Rightarrow> 'b option"
  assume fg: "fun_ord option_ord f g"
  from mf fg have 1: "option_ord (B f) (B g)" by (rule monotoneD [of _ _ _ f g])
  from mg have 2: "\<And>y. option_ord (C y f) (C y g)" by (rule monotoneD) (rule fg)
  show "option_ord (bnd (B f) (\<lambda>y. C y f)) (bnd (B g) (\<lambda>y. C y g))"
  proof (cases "B f")
    case None
    then show ?thesis by (simp add: bnd_def flat_ord_def)
  next
    case (Some r)
    with 1 have Bg: "B g = Some r" by (simp add: flat_ord_def)
    show ?thesis
    proof (cases r)
      case (Inl e)
      with Some Bg show ?thesis by (simp add: bnd_def flat_ord_def)
    next
      case (Inr x)
      with Some Bg 2 [of x] show ?thesis by (simp add: bnd_def)
    qed
  qed
qed

subsection \<open>The template parameters and the tree\<close>

text \<open>
  \<open>Node_default\<close> is \<^verbatim>\<open>Node()\<close>, \<open>Node_leaf idx val\<close> is \<^verbatim>\<open>Node(idx, val)\<close>,
  \<open>node_join a b\<close> is \<^verbatim>\<open>a.join(b)\<close>; \<open>Op_default\<close> is \<^verbatim>\<open>Op()\<close>,
  \<open>op_apply u x st en\<close> is the node after \<^verbatim>\<open>u.apply(x, st, en)\<close> and
  \<open>op_merge p u st en\<close> is \<^verbatim>\<open>p.merge(u, st, en)\<close>.
\<close>

record ('node, 'op) ops =
  Node_default :: "'node"
  Node_leaf :: "int \<Rightarrow> int \<Rightarrow> 'node"
  node_join :: "'node \<Rightarrow> 'node \<Rightarrow> 'node"
  Op_default :: "'op"
  op_apply :: "'op \<Rightarrow> 'node \<Rightarrow> int \<Rightarrow> int \<Rightarrow> 'node"
  op_merge :: "'op \<Rightarrow> 'op \<Rightarrow> int \<Rightarrow> int \<Rightarrow> 'op"

record ('node, 'op) segtree =
  tsize :: int
  tree :: "'node list"
  hasPending :: "bool list"
  pending :: "'op list"

definition left :: "int \<Rightarrow> int" where
  "left node = 2 * node"

definition right :: "int \<Rightarrow> int" where
  "right node = 2 * node + 1"

definition mid :: "int \<Rightarrow> int \<Rightarrow> int" where
  "mid st en = (st + en) sdiv 2"

definition set_tree :: "int \<Rightarrow> 'node \<Rightarrow> ('node, 'op) segtree \<Rightarrow> ('node, 'op) segtree outcome" where
  "set_tree node v s = bnd (vset (tree s) node v) (\<lambda>t. ok (s\<lparr>tree := t\<rparr>))"

definition set_pending :: "int \<Rightarrow> 'op \<Rightarrow> ('node, 'op) segtree \<Rightarrow> ('node, 'op) segtree outcome" where
  "set_pending node u s = bnd (vset (pending s) node u) (\<lambda>p. ok (s\<lparr>pending := p\<rparr>))"

definition set_hasPending :: "int \<Rightarrow> bool \<Rightarrow> ('node, 'op) segtree \<Rightarrow> ('node, 'op) segtree outcome" where
  "set_hasPending node b s = bnd (vset (hasPending s) node b) (\<lambda>h. ok (s\<lparr>hasPending := h\<rparr>))"

text \<open>\<^verbatim>\<open>tree[node] = tree[left(node)].join(tree[right(node)])\<close>\<close>

definition pull :: "('node, 'op) ops \<Rightarrow> int \<Rightarrow> ('node, 'op) segtree \<Rightarrow> ('node, 'op) segtree outcome" where
  "pull A node s =
     bnd (vget (tree s) (left node)) (\<lambda>l.
     bnd (vget (tree s) (right node)) (\<lambda>r.
     set_tree node (node_join A l r) s))"

text \<open>
  \<open>int32 x\<close> is the value of a 32-bit \<^verbatim>\<open>int\<close> computation whose mathematical result is
  \<open>x\<close>: the representative of \<open>x\<close> modulo \<open>2 ^ 32\<close> in \<open>[- 2 ^ 31, 2 ^ 31)\<close>.
\<close>

definition int32 :: "int \<Rightarrow> int" where
  "int32 x = (x + 2147483648) mod 4294967296 - 2147483648"

text \<open>
  \<^verbatim>\<open>SegTree(int n)\<close>: the three vectors are resized to \<^verbatim>\<open>4 * n + 1\<close> default values. The
  count is an \<^verbatim>\<open>int\<close>, converted to \<^verbatim>\<open>size_t\<close> by the call: a negative count becomes a
  size above \<^verbatim>\<open>max_size()\<close> and \<^verbatim>\<open>resize\<close> throws \<^verbatim>\<open>std::length_error\<close>.
\<close>

definition SegTree_init :: "('node, 'op) ops \<Rightarrow> int \<Rightarrow> ('node, 'op) segtree outcome" where
  "SegTree_init A n =
     (if int32 (4 * n + 1) < 0 then fail LengthError
      else ok \<lparr>tsize = n,
               tree = replicate (nat (int32 (4 * n + 1))) (Node_default A),
               hasPending = replicate (nat (int32 (4 * n + 1))) False,
               pending = replicate (nat (int32 (4 * n + 1))) (Op_default A)\<rparr>)"

text \<open>\<^verbatim>\<open>build(arr, node, st, end)\<close>\<close>

partial_function (option) build ::
  "('node, 'op) ops \<Rightarrow> int list \<Rightarrow> int \<Rightarrow> int \<Rightarrow> int \<Rightarrow> ('node, 'op) segtree
     \<Rightarrow> ('node, 'op) segtree outcome" where
  "build A arr node st en s =
     (if st = en then bnd (vget arr st) (\<lambda>v. set_tree node (Node_leaf A st v) s)
      else
        bnd (build A arr (left node) st (mid st en) s) (\<lambda>s1.
        bnd (build A arr (right node) (mid st en + 1) en s1) (\<lambda>s2.
        pull A node s2)))"

text \<open>
  \<^verbatim>\<open>update(node, st, end, i, j, op)\<close>. The source's \<^verbatim>\<open>update\<close> and \<^verbatim>\<open>applyPending\<close> call
  each other; the body of \<^verbatim>\<open>applyPending\<close> is written out in the recursive equation, and
  \<open>update_unfold\<close> below restates the equation with \<open>applyPending\<close> as in the source.
\<close>

partial_function (option) update ::
  "('node, 'op) ops \<Rightarrow> int \<Rightarrow> int \<Rightarrow> int \<Rightarrow> int \<Rightarrow> int \<Rightarrow> 'op \<Rightarrow> ('node, 'op) segtree
     \<Rightarrow> ('node, 'op) segtree outcome" where
  "update A node st en i j u s =
     (if j < st \<or> i > en then ok s
      else if st = en then
        bnd (vget (tree s) node) (\<lambda>t. set_tree node (op_apply A u t st en) s)
      else if st \<ge> i \<and> en \<le> j then
        bnd (vget (tree s) node) (\<lambda>t.
        bnd (set_tree node (op_apply A u t st en) s) (\<lambda>s1.
        bnd (vget (hasPending s1) node) (\<lambda>hp.
        bnd (if hp then bnd (vget (pending s1) node) (\<lambda>p. ok (op_merge A p u st en)) else ok u) (\<lambda>p'.
        bnd (set_pending node p' s1) (\<lambda>s2.
        set_hasPending node True s2)))))
      else
        bnd (bnd (vget (hasPending s) node) (\<lambda>hp.
               if hp then
                 bnd (vget (pending s) node) (\<lambda>p.
                 bnd (update A (left node) st (mid st en) st en p s) (\<lambda>s1.
                 bnd (vget (pending s1) node) (\<lambda>p1.
                 bnd (update A (right node) (mid st en + 1) en st en p1 s1) (\<lambda>s2.
                 set_hasPending node False s2))))
               else ok s)) (\<lambda>s1.
        bnd (if i \<le> mid st en then update A (left node) st (mid st en) i j u s1 else ok s1) (\<lambda>s2.
        bnd (if j > mid st en then update A (right node) (mid st en + 1) en i j u s2 else ok s2) (\<lambda>s3.
        pull A node s3))))"

text \<open>\<^verbatim>\<open>applyPending(node, st, end)\<close>\<close>

definition applyPending ::
  "('node, 'op) ops \<Rightarrow> int \<Rightarrow> int \<Rightarrow> int \<Rightarrow> ('node, 'op) segtree \<Rightarrow> ('node, 'op) segtree outcome" where
  "applyPending A node st en s =
     bnd (vget (hasPending s) node) (\<lambda>hp.
       if hp then
         bnd (vget (pending s) node) (\<lambda>p.
         bnd (update A (left node) st (mid st en) st en p s) (\<lambda>s1.
         bnd (vget (pending s1) node) (\<lambda>p1.
         bnd (update A (right node) (mid st en + 1) en st en p1 s1) (\<lambda>s2.
         set_hasPending node False s2))))
       else ok s)"

text \<open>\<^verbatim>\<open>query(node, st, end, i, j)\<close>: the result is the state after the call and the \<^verbatim>\<open>Node\<close> returned.\<close>

partial_function (option) query ::
  "('node, 'op) ops \<Rightarrow> int \<Rightarrow> int \<Rightarrow> int \<Rightarrow> int \<Rightarrow> int \<Rightarrow> ('node, 'op) segtree
     \<Rightarrow> (('node, 'op) segtree \<times> 'node) outcome" where
  "query A node st en i j s =
     (if j < st \<or> i > en then ok (s, Node_default A)
      else if st \<ge> i \<and> en \<le> j then bnd (vget (tree s) node) (\<lambda>t. ok (s, t))
      else
        bnd (applyPending A node st en s) (\<lambda>s1.
        bnd (query A (left node) st (mid st en) i j s1) (\<lambda>(s2, p1).
        bnd (query A (right node) (mid st en + 1) en i j s2) (\<lambda>(s3, p2).
        ok (s3, node_join A p1 p2)))))"

text \<open>The public entry points.\<close>

definition build_top :: "('node, 'op) ops \<Rightarrow> int list \<Rightarrow> ('node, 'op) segtree \<Rightarrow> ('node, 'op) segtree outcome" where
  "build_top A arr s = build A arr 1 0 (tsize s - 1) s"

definition query_top ::
  "('node, 'op) ops \<Rightarrow> int \<Rightarrow> int \<Rightarrow> ('node, 'op) segtree \<Rightarrow> (('node, 'op) segtree \<times> 'node) outcome" where
  "query_top A i j s = query A 1 0 (tsize s - 1) i j s"

definition update_top ::
  "('node, 'op) ops \<Rightarrow> int \<Rightarrow> int \<Rightarrow> 'op \<Rightarrow> ('node, 'op) segtree \<Rightarrow> ('node, 'op) segtree outcome" where
  "update_top A i j u s = update A 1 0 (tsize s - 1) i j u s"

text \<open>\<^verbatim>\<open>SegTree(int n, int* arr)\<close>\<close>

definition SegTree_build :: "('node, 'op) ops \<Rightarrow> int \<Rightarrow> int list \<Rightarrow> ('node, 'op) segtree outcome" where
  "SegTree_build A n arr = bnd (SegTree_init A n) (build_top A arr)"

subsection \<open>The instantiation of the source: minimum and maximum, with set and add\<close>

text \<open>
  \<^verbatim>\<open>struct Node\<close> and \<^verbatim>\<open>struct Op\<close>. \<^verbatim>\<open>INF\<close> (here \<open>INF_int\<close>) is the double \<open>1e9\<close>, converted to the
  \<^verbatim>\<open>int\<close> 1000000000 in \<^verbatim>\<open>Node()\<close>. \<^verbatim>\<open>Op()\<close> initialises neither member; the model
  takes code 0 and argument 0 for it (the tree reads \<^verbatim>\<open>pending[node]\<close> only where
  \<^verbatim>\<open>hasPending[node]\<close> is set, after an update was stored there).
\<close>

record Node =
  minVal :: int
  maxVal :: int

record Op =
  code :: char
  arg :: int

definition INF_int :: int where
  "INF_int = 1000000000"

definition Node_new :: Node where
  "Node_new = \<lparr>minVal = INF_int, maxVal = - INF_int\<rparr>"

definition Node_of :: "int \<Rightarrow> int \<Rightarrow> Node" where
  "Node_of idx val = \<lparr>minVal = val, maxVal = val\<rparr>"

definition Node_join :: "Node \<Rightarrow> Node \<Rightarrow> Node" where
  "Node_join a b = \<lparr>minVal = min (minVal a) (minVal b), maxVal = max (maxVal a) (maxVal b)\<rparr>"

definition Op_new :: Op where
  "Op_new = \<lparr>code = CHR 0x00, arg = 0\<rparr>"

definition Op_apply :: "Op \<Rightarrow> Node \<Rightarrow> int \<Rightarrow> int \<Rightarrow> Node" where
  "Op_apply u x st en =
     (if code u = CHR ''s'' then \<lparr>minVal = arg u, maxVal = arg u\<rparr>
      else if code u = CHR ''a'' then \<lparr>minVal = minVal x + arg u, maxVal = maxVal x + arg u\<rparr>
      else x)"

definition Op_merge :: "Op \<Rightarrow> Op \<Rightarrow> int \<Rightarrow> int \<Rightarrow> Op" where
  "Op_merge p u st en =
     (if code u = CHR ''s'' then u else \<lparr>code = code p, arg = arg p + arg u\<rparr>)"

definition MinMax :: "(Node, Op) ops" where
  "MinMax = \<lparr>Node_default = Node_new, Node_leaf = Node_of, node_join = Node_join,
             Op_default = Op_new, op_apply = Op_apply, op_merge = Op_merge\<rparr>"

definition set_or_add :: "Op \<Rightarrow> bool" where
  "set_or_add u \<longleftrightarrow> code u = CHR ''s'' \<or> code u = CHR ''a''"

subsection \<open>Positions, logical contents and the invariant\<close>

text \<open>
  For the ranges the tree uses (\<open>0 \<le> st\<close>) the midpoint is the floor of the mean, and both
  halves of a range of at least two elements are shorter than the range.
\<close>

lemma mid_nonneg: "0 \<le> st + en \<Longrightarrow> mid st en = (st + en) div 2"
  by (simp add: mid_def signed_divide_int_def sgn_if)

lemma mid_bounds: "0 \<le> st \<Longrightarrow> st < en \<Longrightarrow> st \<le> mid st en \<and> mid st en < en"
  by (simp add: mid_nonneg) linarith

lemma mid_measure:
  assumes "0 \<le> st" "st < en"
  shows "mid st en < en" "- mid st en - 1 < - st"
  using mid_bounds [OF assms] by linarith+

text \<open>
  \<open>insub node k\<close>: position \<open>k\<close> lies in the subtree of position \<open>node\<close> (\<open>k\<close> is
  reached from \<open>node\<close> by \<open>left\<close> and \<open>right\<close>). \<open>fits c node len\<close>: a range of \<open>len\<close>
  elements at position \<open>node\<close> has all the positions below it under \<open>c\<close>.
\<close>

definition insub :: "int \<Rightarrow> int \<Rightarrow> bool" where
  "insub node k \<longleftrightarrow> (\<exists>d::nat. k div 2 ^ d = node)"

definition fits :: "int \<Rightarrow> int \<Rightarrow> int \<Rightarrow> bool" where
  "fits c node len \<longleftrightarrow> 1 \<le> node \<and> (\<exists>k::nat. len \<le> 2 ^ k \<and> (node + 1) * 2 ^ k \<le> c)"

text \<open>
  \<open>val A s node st en x\<close> is the aggregate of the single element \<open>x\<close> as the subtree at
  \<open>node\<close> (covering \<open>[st, en]\<close>) holds it: the leaf's aggregate with the pending updates
  on the way up to \<open>node\<close> applied, \<open>node\<close>'s own included. \<open>agg A f a b\<close> joins
  \<open>f a, \<dots>, f b\<close> from left to right.
\<close>

definition pend_apply :: "('node, 'op) ops \<Rightarrow> ('node, 'op) segtree \<Rightarrow> int \<Rightarrow> 'node \<Rightarrow> int \<Rightarrow> 'node" where
  "pend_apply A s node v x =
     (if hasPending s ! nat node then op_apply A (pending s ! nat node) v x x else v)"

function val :: "('node, 'op) ops \<Rightarrow> ('node, 'op) segtree \<Rightarrow> int \<Rightarrow> int \<Rightarrow> int \<Rightarrow> int \<Rightarrow> 'node" where
  "val A s node st en x =
     (if 0 \<le> st \<and> st < en then
        pend_apply A s node
          (if x \<le> mid st en then val A s (left node) st (mid st en) x
           else val A s (right node) (mid st en + 1) en x) x
      else tree s ! nat node)"
  by pat_completeness auto
termination
  by (relation "measure (\<lambda>(A, s, node, st, en, x). nat (en - st))")
     (auto simp: mid_measure)

declare val.simps [simp del]

function agg :: "('node, 'op) ops \<Rightarrow> (int \<Rightarrow> 'node) \<Rightarrow> int \<Rightarrow> int \<Rightarrow> 'node" where
  "agg A f a b = (if a < b then node_join A (f a) (agg A f (a + 1) b) else f a)"
  by pat_completeness auto
termination
  by (relation "measure (\<lambda>(A, f, a, b). nat (b - a))") auto

declare agg.simps [simp del]

definition range_agg :: "('node, 'op) ops \<Rightarrow> (int \<Rightarrow> 'node) \<Rightarrow> int \<Rightarrow> int \<Rightarrow> 'node" where
  "range_agg A f a b = (if b < a then Node_default A else agg A f a b)"

function consistent ::
  "('node, 'op) ops \<Rightarrow> ('op \<Rightarrow> bool) \<Rightarrow> ('node, 'op) segtree \<Rightarrow> int \<Rightarrow> int \<Rightarrow> int \<Rightarrow> bool" where
  "consistent A W s node st en =
     (tree s ! nat node = agg A (val A s node st en) st en \<and>
      (if 0 \<le> st \<and> st < en then
         (hasPending s ! nat node \<longrightarrow> W (pending s ! nat node)) \<and>
         consistent A W s (left node) st (mid st en) \<and>
         consistent A W s (right node) (mid st en + 1) en
       else True))"
  by pat_completeness auto
termination
  by (relation "measure (\<lambda>(A, W, s, node, st, en). nat (en - st))")
     (auto simp: mid_measure)

declare consistent.simps [simp del]


definition neutral :: "('node, 'op) ops \<Rightarrow> 'node \<Rightarrow> bool" where
  "neutral A x \<longleftrightarrow> node_join A (Node_default A) x = x \<and> node_join A x (Node_default A) = x"

definition laws :: "('node, 'op) ops \<Rightarrow> ('op \<Rightarrow> bool) \<Rightarrow> bool" where
  "laws A W \<longleftrightarrow>
     (\<forall>x y z. node_join A (node_join A x y) z = node_join A x (node_join A y z)) \<and>
     node_join A (Node_default A) (Node_default A) = Node_default A \<and>
     (\<forall>u x y a m b. W u \<and> a \<le> m \<and> m < b \<longrightarrow>
        op_apply A u (node_join A x y) a b
          = node_join A (op_apply A u x a m) (op_apply A u y (m + 1) b)) \<and>
     (\<forall>p u a b. W p \<and> W u \<longrightarrow> W (op_merge A p u a b)) \<and>
     (\<forall>p u x a b c d. W p \<and> W u \<and> a \<le> c \<and> c \<le> d \<and> d \<le> b \<longrightarrow>
        op_apply A (op_merge A p u a b) x c d = op_apply A u (op_apply A p x c d) c d)"

definition lens :: "nat \<Rightarrow> ('node, 'op) segtree \<Rightarrow> bool" where
  "lens c s \<longleftrightarrow> length (tree s) = c \<and> length (hasPending s) = c \<and> length (pending s) = c"

definition same_at :: "('node, 'op) segtree \<Rightarrow> ('node, 'op) segtree \<Rightarrow> int \<Rightarrow> bool" where
  "same_at s s' k \<longleftrightarrow>
     tree s' ! nat k = tree s ! nat k \<and> hasPending s' ! nat k = hasPending s ! nat k \<and>
     pending s' ! nat k = pending s ! nat k"

definition frame :: "int \<Rightarrow> ('node, 'op) segtree \<Rightarrow> ('node, 'op) segtree \<Rightarrow> bool" where
  "frame node s s' \<longleftrightarrow>
     tsize s' = tsize s \<and> length (tree s') = length (tree s) \<and>
     length (hasPending s') = length (hasPending s) \<and> length (pending s') = length (pending s) \<and>
     (\<forall>k. 0 \<le> k \<and> \<not> insub node k \<longrightarrow> same_at s s' k)"

definition pos :: "nat \<Rightarrow> int \<Rightarrow> int \<Rightarrow> int \<Rightarrow> bool" where
  "pos c node st en \<longleftrightarrow> 0 \<le> st \<and> st \<le> en \<and> fits (int c) node (en - st + 1)"

text \<open>
  \<open>elem A s x\<close> is the aggregate of the single element \<open>x\<close> that the tree \<open>s\<close> holds: its
  logical content. \<open>good\<close> is the invariant of the whole tree, and \<open>reachable\<close> are the
  trees obtained from a construction with \<open>n \<ge> 1\<close> and a seed of at least \<open>n\<close> elements
  by updates (with updates from \<open>W\<close>, any interval) and queries (any interval).
\<close>

definition elem :: "('node, 'op) ops \<Rightarrow> ('node, 'op) segtree \<Rightarrow> int \<Rightarrow> 'node" where
  "elem A s x = val A s 1 0 (tsize s - 1) x"

definition good :: "('node, 'op) ops \<Rightarrow> ('op \<Rightarrow> bool) \<Rightarrow> ('node, 'op) segtree \<Rightarrow> bool" where
  "good A W s \<longleftrightarrow>
     1 \<le> tsize s \<and> lens (nat (4 * tsize s + 1)) s \<and> consistent A W s 1 0 (tsize s - 1)"

inductive reachable :: "('node, 'op) ops \<Rightarrow> ('op \<Rightarrow> bool) \<Rightarrow> ('node, 'op) segtree \<Rightarrow> bool"
  for A :: "('node, 'op) ops" and W :: "'op \<Rightarrow> bool" where
  built: "1 \<le> n \<Longrightarrow> n \<le> int (length arr) \<Longrightarrow> SegTree_build A n arr = ok s \<Longrightarrow> reachable A W s"
| updated: "reachable A W s \<Longrightarrow> W u \<Longrightarrow> update_top A i j u s = ok s' \<Longrightarrow> reachable A W s'"
| queried: "reachable A W s \<Longrightarrow> query_top A i j s = ok (s', r) \<Longrightarrow> reachable A W s'"

text \<open>
  \<open>decomp A f st en i j\<close> is what the decomposition of \<open>[i, j]\<close> against the position
  covering \<open>[st, en]\<close> joins, over elements with aggregates \<open>f\<close>: the default \<^verbatim>\<open>Node\<close> for
  a disjoint position, the aggregate of a position inside \<open>[i, j]\<close>, and the join of the two
  halves otherwise.
\<close>

function decomp :: "('node, 'op) ops \<Rightarrow> (int \<Rightarrow> 'node) \<Rightarrow> int \<Rightarrow> int \<Rightarrow> int \<Rightarrow> int \<Rightarrow> 'node" where
  "decomp A f st en i j =
     (if j < st \<or> i > en then Node_default A
      else if st \<ge> i \<and> en \<le> j then agg A f st en
      else if 0 \<le> st \<and> st < en then
        node_join A (decomp A f st (mid st en) i j) (decomp A f (mid st en + 1) en i j)
      else Node_default A)"
  by pat_completeness auto

termination
  by (relation "measure (\<lambda>(A, f, st, en, i, j). nat (en - st))")
     (auto simp: mid_measure)

declare decomp.simps [simp del]

text \<open>
  The number of calls that one call makes, itself included. \<open>T_build\<close>, \<open>T_update\<close> and
  \<open>T_query\<close> follow the recursion of \<open>build\<close>, \<open>update\<close> and \<open>query\<close>; the call of
  \<^verbatim>\<open>applyPending\<close> is counted with the two calls of \<^verbatim>\<open>update\<close> that it makes when a
  pending update is present (\<open>T_applyPending\<close>), which is the most it makes.
\<close>

partial_function (option) T_build :: "int \<Rightarrow> int \<Rightarrow> nat option" where
  "T_build st en =
     (if st = en then Some 1
      else
        Option.bind (T_build st (mid st en)) (\<lambda>l.
        Option.bind (T_build (mid st en + 1) en) (\<lambda>r.
        Some (1 + l + r))))"

partial_function (option) T_update :: "int \<Rightarrow> int \<Rightarrow> int \<Rightarrow> int \<Rightarrow> nat option" where
  "T_update st en i j =
     (if j < st \<or> i > en then Some 1
      else if st = en then Some 1
      else if st \<ge> i \<and> en \<le> j then Some 1
      else
        Option.bind (Option.bind (T_update st (mid st en) st en) (\<lambda>a.
                     Option.bind (T_update (mid st en + 1) en st en) (\<lambda>b. Some (1 + a + b)))) (\<lambda>p.
        Option.bind (if i \<le> mid st en then T_update st (mid st en) i j else Some 0) (\<lambda>l.
        Option.bind (if j > mid st en then T_update (mid st en + 1) en i j else Some 0) (\<lambda>r.
        Some (1 + p + l + r)))))"

definition T_applyPending :: "int \<Rightarrow> int \<Rightarrow> nat option" where
  "T_applyPending st en =
     Option.bind (T_update st (mid st en) st en) (\<lambda>a.
     Option.bind (T_update (mid st en + 1) en st en) (\<lambda>b. Some (1 + a + b)))"

partial_function (option) T_query :: "int \<Rightarrow> int \<Rightarrow> int \<Rightarrow> int \<Rightarrow> nat option" where
  "T_query st en i j =
     (if j < st \<or> i > en then Some 1
      else if st \<ge> i \<and> en \<le> j then Some 1
      else
        Option.bind (T_applyPending st en) (\<lambda>p.
        Option.bind (T_query st (mid st en) i j) (\<lambda>l.
        Option.bind (T_query (mid st en + 1) en i j) (\<lambda>r.
        Some (1 + p + l + r)))))"

text \<open>The recursive equations are the code equations of the partial functions.\<close>

declare build.simps [code] update.simps [code] query.simps [code]
  T_build.simps [code] T_update.simps [code] T_query.simps [code]

text \<open>The tree that \<^verbatim>\<open>SegTree<Node, Op>(4, arr)\<close> builds from the seed 3, 1, 4, 1.\<close>

definition t4 :: "(Node, Op) segtree" where
  "t4 = \<lparr>tsize = 4,
     tree = [Node_new, \<lparr>minVal = 1, maxVal = 4\<rparr>, \<lparr>minVal = 1, maxVal = 3\<rparr>, \<lparr>minVal = 1, maxVal = 4\<rparr>,
             Node_of 0 3, Node_of 1 1, Node_of 2 4, Node_of 3 1,
             Node_new, Node_new, Node_new, Node_new, Node_new, Node_new, Node_new, Node_new, Node_new],
     hasPending = replicate 17 False,
     pending = replicate 17 Op_new\<rparr>"

text \<open>\<open>query_times A k i j\<close>: the same query \<open>k\<close> times in a row, with the results in order.\<close>

fun query_times ::
  "('node, 'op) ops \<Rightarrow> nat \<Rightarrow> int \<Rightarrow> int \<Rightarrow> ('node, 'op) segtree
     \<Rightarrow> (('node, 'op) segtree \<times> 'node list) outcome" where
  "query_times A 0 i j s = ok (s, [])"
| "query_times A (Suc k) i j s =
     bnd (query_top A i j s) (\<lambda>(s1, r).
     bnd (query_times A k i j s1) (\<lambda>(s2, rs). ok (s2, r # rs)))"

text \<open>Two trees of the same size with the same logical content.\<close>

definition same_content ::
  "('node, 'op) ops \<Rightarrow> ('node, 'op) segtree \<Rightarrow> ('node, 'op) segtree \<Rightarrow> bool" where
  "same_content A s t \<longleftrightarrow>
     tsize t = tsize s \<and> (\<forall>x. 0 \<le> x \<and> x < tsize s \<longrightarrow> elem A t x = elem A s x)"

text \<open>
  The tree built from the seed 999999999, 0, and that tree after \<open>update(0, 0, add 5)\<close>;
  the tree built from the seed 2000000000, 2000000000.
\<close>

definition big2 :: "(Node, Op) segtree" where
  "big2 = \<lparr>tsize = 2,
     tree = [Node_new, \<lparr>minVal = 0, maxVal = 999999999\<rparr>, Node_of 0 999999999, Node_of 1 0,
             Node_new, Node_new, Node_new, Node_new, Node_new],
     hasPending = replicate 9 False,
     pending = replicate 9 Op_new\<rparr>"

definition big2_added :: "(Node, Op) segtree" where
  "big2_added = \<lparr>tsize = 2,
     tree = [Node_new, \<lparr>minVal = 0, maxVal = 1000000004\<rparr>, Node_of 0 1000000004, Node_of 1 0,
             Node_new, Node_new, Node_new, Node_new, Node_new],
     hasPending = replicate 9 False,
     pending = replicate 9 Op_new\<rparr>"

definition huge2 :: "(Node, Op) segtree" where
  "huge2 = \<lparr>tsize = 2,
     tree = [Node_new, Node_of 0 2000000000, Node_of 0 2000000000, Node_of 1 2000000000,
             Node_new, Node_new, Node_new, Node_new, Node_new],
     hasPending = replicate 9 False,
     pending = replicate 9 Op_new\<rparr>"

text \<open>The tree \<open>huge2\<close> after \<open>update(0, 0, add -1500000000)\<close>.\<close>

definition huge2_lowered :: "(Node, Op) segtree" where
  "huge2_lowered = \<lparr>tsize = 2,
     tree = [Node_new, \<lparr>minVal = 500000000, maxVal = 2000000000\<rparr>, Node_of 0 500000000,
             Node_of 1 2000000000, Node_new, Node_new, Node_new, Node_new, Node_new],
     hasPending = replicate 9 False,
     pending = replicate 9 Op_new\<rparr>"

text \<open>
  \<open>splits i j ivs\<close>: the intervals \<open>ivs\<close>, in order, are non-empty, follow one another
  without gap or overlap, and cover \<open>[i, j]\<close> exactly. \<open>queries A ivs\<close> makes the queries
  of \<open>ivs\<close> one after the other; \<open>join_all\<close> joins results from left to right.
\<close>

fun splits :: "int \<Rightarrow> int \<Rightarrow> (int \<times> int) list \<Rightarrow> bool" where
  "splits i j [] = False"
| "splits i j [(a, b)] = (a = i \<and> b = j \<and> a \<le> b)"
| "splits i j ((a, b) # iv # ivs) = (a = i \<and> a \<le> b \<and> b < j \<and> splits (b + 1) j (iv # ivs))"

fun queries ::
  "('node, 'op) ops \<Rightarrow> (int \<times> int) list \<Rightarrow> ('node, 'op) segtree
     \<Rightarrow> (('node, 'op) segtree \<times> 'node list) outcome" where
  "queries A [] s = ok (s, [])"
| "queries A ((a, b) # ivs) s =
     bnd (query_top A a b s) (\<lambda>(s1, r).
     bnd (queries A ivs s1) (\<lambda>(s2, rs). ok (s2, r # rs)))"

definition join_all :: "('node, 'op) ops \<Rightarrow> 'node list \<Rightarrow> 'node" where
  "join_all A xs = (case xs of [] \<Rightarrow> Node_default A | x # r \<Rightarrow> foldl (node_join A) x r)"

text \<open>
  \<open>reach nd a b node st en\<close>: the position \<open>node\<close> with range \<open>[st, en]\<close> is the position
  \<open>nd\<close> with range \<open>[a, b]\<close> or lies below it in the implicit tree. The positions of a tree
  of \<open>n\<close> elements are those reached from the root, position 1 with range \<open>[0, n - 1]\<close>.
\<close>

inductive reach :: "int \<Rightarrow> int \<Rightarrow> int \<Rightarrow> int \<Rightarrow> int \<Rightarrow> int \<Rightarrow> bool" where
  here: "reach node st en node st en"
| below_left: "a < b \<Longrightarrow> reach (left nd) a (mid a b) node st en \<Longrightarrow> reach nd a b node st en"
| below_right: "a < b \<Longrightarrow> reach (right nd) (mid a b + 1) b node st en \<Longrightarrow> reach nd a b node st en"

definition position :: "int \<Rightarrow> int \<Rightarrow> int \<Rightarrow> int \<Rightarrow> bool" where
  "position n node st en \<longleftrightarrow> reach 1 0 (n - 1) node st en"

text \<open>
  \<open>built A arr st en\<close> is the aggregate of \<open>[st, en]\<close> made by halving the range down to
  single elements of the seed; \<open>halved\<close> says that a position and all positions below it
  hold it.
\<close>

function built :: "('node, 'op) ops \<Rightarrow> int list \<Rightarrow> int \<Rightarrow> int \<Rightarrow> 'node" where
  "built A arr st en =
     (if 0 \<le> st \<and> st < en then
        node_join A (built A arr st (mid st en)) (built A arr (mid st en + 1) en)
      else Node_leaf A st (arr ! nat st))"
  by pat_completeness auto

termination
  by (relation "measure (\<lambda>(A, arr, st, en). nat (en - st))")
     (auto simp: mid_measure)

declare built.simps [simp del]

function halved ::
  "('node, 'op) ops \<Rightarrow> int list \<Rightarrow> ('node, 'op) segtree \<Rightarrow> int \<Rightarrow> int \<Rightarrow> int \<Rightarrow> bool" where
  "halved A arr s node st en =
     (tree s ! nat node = built A arr st en \<and>
      (if 0 \<le> st \<and> st < en then
         halved A arr s (left node) st (mid st en) \<and>
         halved A arr s (right node) (mid st en + 1) en
       else True))"
  by pat_completeness auto

termination
  by (relation "measure (\<lambda>(A, arr, s, node, st, en). nat (en - st))")
     (auto simp: mid_measure)

declare halved.simps [simp del]

text \<open>The tree built from the seed 0, 0, and that tree after \<open>update(0, 1, set 5)\<close>.\<close>

definition z2 :: "(Node, Op) segtree" where
  "z2 = \<lparr>tsize = 2,
     tree = [Node_new, Node_of 0 0, Node_of 0 0, Node_of 1 0,
             Node_new, Node_new, Node_new, Node_new, Node_new],
     hasPending = replicate 9 False,
     pending = replicate 9 Op_new\<rparr>"

definition z2_set :: "(Node, Op) segtree" where
  "z2_set = \<lparr>tsize = 2,
     tree = [Node_new, Node_of 0 5, Node_of 0 0, Node_of 1 0,
             Node_new, Node_new, Node_new, Node_new, Node_new],
     hasPending = [False, True, False, False, False, False, False, False, False],
     pending = [Op_new, \<lparr>code = CHR ''s'', arg = 5\<rparr>, Op_new, Op_new, Op_new, Op_new, Op_new,
                Op_new, Op_new]\<rparr>"

text \<open>
  \<open>z2_pushed\<close> is \<open>z2_set\<close> after \<open>query(0, 0)\<close>: the pending update is pushed down to
  the two leaves. \<open>z2_set_n\<close> and \<open>z2_pushed_n\<close> are \<open>z2_set\<close> and \<open>z2_pushed\<close> after
  \<open>update(0, 1, Op('n', 3))\<close>, an update with a code other than \<open>s\<close> and \<open>a\<close>;
  \<open>z2_set_n_q\<close> and \<open>z2_pushed_n_q\<close> are these after \<open>query(0, 0)\<close>.
\<close>

definition z2_pushed :: "(Node, Op) segtree" where
  "z2_pushed = \<lparr>tsize = 2,
     tree = [Node_new, Node_of 0 5, Node_of 0 5, Node_of 1 5,
             Node_new, Node_new, Node_new, Node_new, Node_new],
     hasPending = replicate 9 False,
     pending = [Op_new, \<lparr>code = CHR ''s'', arg = 5\<rparr>, Op_new, Op_new, Op_new, Op_new, Op_new,
                Op_new, Op_new]\<rparr>"

definition z2_set_n :: "(Node, Op) segtree" where
  "z2_set_n = \<lparr>tsize = 2,
     tree = [Node_new, Node_of 0 5, Node_of 0 0, Node_of 1 0,
             Node_new, Node_new, Node_new, Node_new, Node_new],
     hasPending = [False, True, False, False, False, False, False, False, False],
     pending = [Op_new, \<lparr>code = CHR ''s'', arg = 8\<rparr>, Op_new, Op_new, Op_new, Op_new, Op_new,
                Op_new, Op_new]\<rparr>"

definition z2_set_n_q :: "(Node, Op) segtree" where
  "z2_set_n_q = \<lparr>tsize = 2,
     tree = [Node_new, Node_of 0 5, Node_of 0 8, Node_of 1 8,
             Node_new, Node_new, Node_new, Node_new, Node_new],
     hasPending = replicate 9 False,
     pending = [Op_new, \<lparr>code = CHR ''s'', arg = 8\<rparr>, Op_new, Op_new, Op_new, Op_new, Op_new,
                Op_new, Op_new]\<rparr>"

definition z2_pushed_n :: "(Node, Op) segtree" where
  "z2_pushed_n = \<lparr>tsize = 2,
     tree = [Node_new, Node_of 0 5, Node_of 0 5, Node_of 1 5,
             Node_new, Node_new, Node_new, Node_new, Node_new],
     hasPending = [False, True, False, False, False, False, False, False, False],
     pending = [Op_new, \<lparr>code = CHR ''n'', arg = 3\<rparr>, Op_new, Op_new, Op_new, Op_new, Op_new,
                Op_new, Op_new]\<rparr>"

definition z2_pushed_n_q :: "(Node, Op) segtree" where
  "z2_pushed_n_q = \<lparr>tsize = 2,
     tree = [Node_new, Node_of 0 5, Node_of 0 5, Node_of 1 5,
             Node_new, Node_new, Node_new, Node_new, Node_new],
     hasPending = replicate 9 False,
     pending = [Op_new, \<lparr>code = CHR ''n'', arg = 3\<rparr>, Op_new, Op_new, Op_new, Op_new, Op_new,
                Op_new, Op_new]\<rparr>"

section \<open>Properties\<close>

subsection \<open>The size of the vectors\<close>

lemma int32_id: "- 2147483648 \<le> x \<Longrightarrow> x < 2147483648 \<Longrightarrow> int32 x = x"
  by (simp add: int32_def)

lemma int32_range: "- 2147483648 \<le> int32 x" "int32 x < 2147483648"
proof -
  have "0 \<le> (x + 2147483648) mod 4294967296" "(x + 2147483648) mod 4294967296 < 4294967296"
    by simp_all
  then show "- 2147483648 \<le> int32 x" "int32 x < 2147483648"
    by (simp_all add: int32_def)
qed

lemma int32_shift: "int32 (x + 4294967296) = int32 x"
proof -
  have "x + 4294967296 + 2147483648 = (x + 2147483648) + 4294967296" by simp
  then show ?thesis unfolding int32_def by (simp only: mod_add_self2)
qed

lemma int32_size: "1 \<le> n \<Longrightarrow> n < 536870912 \<Longrightarrow> int32 (4 * n + 1) = 4 * n + 1"
  by (rule int32_id) simp_all

lemma SegTree_init_ok:
  assumes "1 \<le> n" "n < 536870912"
  shows "SegTree_init A n = ok \<lparr>tsize = n,
               tree = replicate (nat (4 * n + 1)) (Node_default A),
               hasPending = replicate (nat (4 * n + 1)) False,
               pending = replicate (nat (4 * n + 1)) (Op_default A)\<rparr>"
  using assms by (simp add: SegTree_init_def int32_size)

subsection \<open>Positions of the implicit tree\<close>

lemma div_pow_Suc: "(k::int) div 2 ^ Suc d = k div 2 ^ d div 2"
proof -
  have "k div (2 ^ d * 2) = k div 2 ^ d div 2" by (rule zdiv_zmult2_eq) simp
  then show ?thesis by (simp add: mult.commute)
qed

lemma div_pow_le: "0 \<le> (m::int) \<Longrightarrow> m div 2 ^ (d::nat) \<le> m"
proof -
  assume m: "0 \<le> m"
  have "m div 2 ^ d \<le> m div 1" using m by (intro zdiv_mono2) auto
  then show ?thesis by simp
qed

lemma insub_self: "insub node node"
  unfolding insub_def by (rule exI [of _ 0]) simp

lemma insub_left: "insub (left node) k \<Longrightarrow> insub node k"
  unfolding insub_def left_def
proof (erule exE)
  fix d :: nat assume "k div 2 ^ d = 2 * node"
  then have "k div 2 ^ Suc d = node"
    unfolding div_pow_Suc by simp
  then show "\<exists>d. k div 2 ^ d = node" by blast
qed

lemma insub_right: "insub (right node) k \<Longrightarrow> insub node k"
  unfolding insub_def right_def
proof (erule exE)
  fix d :: nat assume "k div 2 ^ d = 2 * node + 1"
  then have "k div 2 ^ Suc d = node"
    unfolding div_pow_Suc by simp
  then show "\<exists>d. k div 2 ^ d = node" by blast
qed

lemma div_pow_half: "0 \<le> (m::int) \<Longrightarrow> 0 < d \<Longrightarrow> m div 2 ^ (d::nat) \<le> m div 2"
proof -
  assume m: "0 \<le> m" and d: "0 < d"
  then obtain e where e: "d = Suc e" by (cases d) auto
  have "m div 2 ^ d = (m div 2) div 2 ^ e"
    unfolding e by (simp add: zdiv_zmult2_eq)
  also have "\<dots> \<le> m div 2" using m by (intro div_pow_le) simp
  finally show ?thesis .
qed

lemma div_pow_add: "(k::int) div 2 ^ (d + e) = (k div 2 ^ d) div 2 ^ e"
  by (simp add: power_add zdiv_zmult2_eq)

lemma insub_not_both:
  assumes n: "1 \<le> node" and l: "insub (left node) k" and r: "insub (right node) k"
  shows False
proof -
  from l obtain d where d: "k div 2 ^ d = 2 * node" by (auto simp: insub_def left_def)
  from r obtain e where e: "k div 2 ^ e = 2 * node + 1" by (auto simp: insub_def right_def)
  consider "d = e" | "d < e" | "e < d" by linarith
  then show False
  proof cases
    case 1 with d e show False by simp
  next
    case 2
    then obtain c where c: "e = d + c" "0 < c" by (metis less_imp_add_positive)
    have "k div 2 ^ e = (2 * node) div 2 ^ c" unfolding c(1) div_pow_add d ..
    also have "\<dots> \<le> (2 * node) div 2" using n c(2) by (intro div_pow_half) auto
    finally show False using e n by simp
  next
    case 3
    then obtain c where c: "d = e + c" "0 < c" by (metis less_imp_add_positive)
    have "k div 2 ^ d = (2 * node + 1) div 2 ^ c" unfolding c(1) div_pow_add e ..
    also have "\<dots> \<le> (2 * node + 1) div 2" using n c(2) by (intro div_pow_half) auto
    finally show False using d n by simp
  qed
qed

lemma insub_child_not_self:
  assumes n: "1 \<le> node"
  shows "\<not> insub (left node) node" "\<not> insub (right node) node"
proof -
  have *: "\<And>d::nat. node div 2 ^ d \<le> node" using n by (intro div_pow_le) simp
  show "\<not> insub (left node) node"
  proof
    assume "insub (left node) node"
    then obtain d :: nat where "node div 2 ^ d = 2 * node" by (auto simp: insub_def left_def)
    with * [of d] n show False by simp
  qed
  show "\<not> insub (right node) node"
  proof
    assume "insub (right node) node"
    then obtain d :: nat where "node div 2 ^ d = 2 * node + 1" by (auto simp: insub_def right_def)
    with * [of d] n show False by simp
  qed
qed

lemma fits_node: "fits c node len \<Longrightarrow> 1 \<le> node \<and> node < c"
proof -
  assume "fits c node len"
  then obtain k :: nat where n: "1 \<le> node" and k: "(node + 1) * 2 ^ k \<le> c"
    by (auto simp: fits_def)
  have "(1::int) \<le> 2 ^ k" by simp
  with n have "(node + 1) * 1 \<le> (node + 1) * 2 ^ k" by (intro mult_left_mono) auto
  then have "node + 1 \<le> (node + 1) * 2 ^ k" by simp
  with k n show ?thesis by linarith
qed

lemma fits_children:
  assumes f: "fits c node (en - st + 1)" and st: "0 \<le> st" "st < en"
  shows "fits c (left node) (mid st en - st + 1)" "fits c (right node) (en - (mid st en + 1) + 1)"
proof -
  from f obtain k :: nat where n: "1 \<le> node" and len: "en - st + 1 \<le> 2 ^ k"
    and k: "(node + 1) * 2 ^ k \<le> c" by (auto simp: fits_def)
  have "k \<noteq> 0"
  proof
    assume "k = 0"
    with len st show False by simp
  qed
  then obtain k' where k': "k = Suc k'" using not0_implies_Suc by blast
  have m: "mid st en = (st + en) div 2" using st by (simp add: mid_nonneg)
  have l1: "mid st en - st + 1 \<le> 2 ^ k'" using len unfolding k' m by (simp, linarith?)
  have l2: "en - (mid st en + 1) + 1 \<le> 2 ^ k'" using len unfolding k' m by (simp, linarith?)
  have "(left node + 1) * 2 ^ k' \<le> (node + 1) * 2 ^ k"
    unfolding k' left_def by (simp add: algebra_simps)
  with k have c1: "(left node + 1) * 2 ^ k' \<le> c" by linarith
  have "(right node + 1) * 2 ^ k' = (node + 1) * 2 ^ k"
    unfolding k' right_def by (simp add: algebra_simps)
  with k have c2: "(right node + 1) * 2 ^ k' \<le> c" by linarith
  show "fits c (left node) (mid st en - st + 1)"
    unfolding fits_def using n l1 c1 by (auto simp: left_def)
  show "fits c (right node) (en - (mid st en + 1) + 1)"
    unfolding fits_def using n l2 c2 by (auto simp: right_def)
qed

lemma pow2_between: "1 \<le> n \<Longrightarrow> \<exists>k::nat. int n \<le> 2 ^ k \<and> (2::int) ^ k \<le> 2 * int n"
proof (induction n)
  case 0 then show ?case by simp
next
  case (Suc n)
  show ?case
  proof (cases "n = 0")
    case True then show ?thesis by (intro exI [of _ 0]) simp
  next
    case False
    with Suc.IH obtain k :: nat where k: "int n \<le> 2 ^ k" "(2::int) ^ k \<le> 2 * int n" by auto
    show ?thesis
    proof (cases "int (Suc n) \<le> 2 ^ k")
      case True with k show ?thesis by (intro exI [of _ k]) simp
    next
      case False
      with k have "(2::int) ^ k = int n" by linarith
      then have e: "(2::int) ^ Suc k = 2 * int n" by simp
      have "1 \<le> int n" using \<open>n \<noteq> 0\<close> by simp
      then have "int (Suc n) \<le> 2 * int n \<and> 2 * int n \<le> 2 * int (Suc n)" by simp
      then have "int (Suc n) \<le> 2 ^ Suc k \<and> (2::int) ^ Suc k \<le> 2 * int (Suc n)"
        unfolding e .
      then show ?thesis by blast
    qed
  qed
qed

lemma fits_root: "1 \<le> n \<Longrightarrow> fits (4 * n + 1) 1 n"
proof -
  assume n: "1 \<le> n"
  then have "1 \<le> nat n" by simp
  from pow2_between [OF this] n obtain k :: nat where "n \<le> 2 ^ k" "(2::int) ^ k \<le> 2 * n" by auto
  then show ?thesis unfolding fits_def by (intro conjI exI [of _ k]) auto
qed

subsection \<open>Outcomes and vector accesses\<close>

lemma bnd_ok [simp]: "bnd (ok x) f = f x"
  by (simp add: bnd_def ok_def)

lemma bnd_fail [simp]: "bnd (fail e) f = fail e"
  by (simp add: bnd_def fail_def)

lemma bnd_None [simp]: "bnd None f = None"
  by (simp add: bnd_def)

lemma ok_inject [simp]: "ok x = ok y \<longleftrightarrow> x = y"
  by (simp add: ok_def)

lemma ok_not_fail [simp]: "ok x \<noteq> fail e" "fail e \<noteq> ok x" "ok x \<noteq> None" "fail e \<noteq> None"
  by (simp_all add: ok_def fail_def)

lemma vget_ok: "0 \<le> k \<Longrightarrow> k < int (length xs) \<Longrightarrow> vget xs k = ok (xs ! nat k)"
  by (simp add: vget_def)

lemma vset_ok: "0 \<le> k \<Longrightarrow> k < int (length xs) \<Longrightarrow> vset xs k v = ok (xs[nat k := v])"
  by (simp add: vset_def)

lemma set_tree_ok:
  "0 \<le> k \<Longrightarrow> k < int (length (tree s)) \<Longrightarrow> set_tree k v s = ok (s\<lparr>tree := (tree s)[nat k := v]\<rparr>)"
  by (simp add: set_tree_def vset_ok)

lemma set_pending_ok:
  "0 \<le> k \<Longrightarrow> k < int (length (pending s)) \<Longrightarrow>
   set_pending k v s = ok (s\<lparr>pending := (pending s)[nat k := v]\<rparr>)"
  by (simp add: set_pending_def vset_ok)

lemma set_hasPending_ok:
  "0 \<le> k \<Longrightarrow> k < int (length (hasPending s)) \<Longrightarrow>
   set_hasPending k v s = ok (s\<lparr>hasPending := (hasPending s)[nat k := v]\<rparr>)"
  by (simp add: set_hasPending_def vset_ok)

text \<open>The recursive equation of \<open>update\<close>, with \<open>applyPending\<close> as in the source.\<close>

lemma update_unfold:
  "update A node st en i j u s =
     (if j < st \<or> i > en then ok s
      else if st = en then
        bnd (vget (tree s) node) (\<lambda>t. set_tree node (op_apply A u t st en) s)
      else if st \<ge> i \<and> en \<le> j then
        bnd (vget (tree s) node) (\<lambda>t.
        bnd (set_tree node (op_apply A u t st en) s) (\<lambda>s1.
        bnd (vget (hasPending s1) node) (\<lambda>hp.
        bnd (if hp then bnd (vget (pending s1) node) (\<lambda>p. ok (op_merge A p u st en)) else ok u) (\<lambda>p'.
        bnd (set_pending node p' s1) (\<lambda>s2.
        set_hasPending node True s2)))))
      else
        bnd (applyPending A node st en s) (\<lambda>s1.
        bnd (if i \<le> mid st en then update A (left node) st (mid st en) i j u s1 else ok s1) (\<lambda>s2.
        bnd (if j > mid st en then update A (right node) (mid st en + 1) en i j u s2 else ok s2) (\<lambda>s3.
        pull A node s3))))"
  by (subst update.simps) (simp add: applyPending_def)

lemma laws_assoc: "laws A W \<Longrightarrow> node_join A (node_join A x y) z = node_join A x (node_join A y z)"
  by (simp add: laws_def)

lemma laws_distrib:
  "laws A W \<Longrightarrow> W u \<Longrightarrow> a \<le> m \<Longrightarrow> m < b \<Longrightarrow>
   op_apply A u (node_join A x y) a b = node_join A (op_apply A u x a m) (op_apply A u y (m + 1) b)"
  unfolding laws_def by blast

lemma laws_merge_closed: "laws A W \<Longrightarrow> W p \<Longrightarrow> W u \<Longrightarrow> W (op_merge A p u a b)"
  unfolding laws_def by blast

lemma laws_merge:
  "laws A W \<Longrightarrow> W p \<Longrightarrow> W u \<Longrightarrow> a \<le> c \<Longrightarrow> c \<le> d \<Longrightarrow> d \<le> b \<Longrightarrow>
   op_apply A (op_merge A p u a b) x c d = op_apply A u (op_apply A p x c d) c d"
  unfolding laws_def by blast

lemma laws_default: "laws A W \<Longrightarrow> node_join A (Node_default A) (Node_default A) = Node_default A"
  by (simp add: laws_def)

lemma agg_single [simp]: "agg A f a a = f a"
  by (subst agg.simps) simp

lemma agg_step: "a < b \<Longrightarrow> agg A f a b = node_join A (f a) (agg A f (a + 1) b)"
  by (subst agg.simps) simp

lemma agg_cong:
  "a \<le> b \<Longrightarrow> (\<And>x. a \<le> x \<Longrightarrow> x \<le> b \<Longrightarrow> f x = g x) \<Longrightarrow> agg A f a b = agg A g a b"
proof (induction A f a b rule: agg.induct)
  case (1 A f a b)
  show ?case
  proof (cases "a < b")
    case True
    have "agg A f (a + 1) b = agg A g (a + 1) b"
      using True "1.prems" by (intro "1.IH") auto
    moreover have "f a = g a" using "1.prems" by simp
    ultimately show ?thesis using True by (simp add: agg_step)
  next
    case False
    with "1.prems" have "a = b" by simp
    with "1.prems" show ?thesis by simp
  qed
qed

lemma agg_split:
  "laws A W \<Longrightarrow> a \<le> m \<Longrightarrow> m < b \<Longrightarrow>
   agg A f a b = node_join A (agg A f a m) (agg A f (m + 1) b)"
proof (induction A f a m rule: agg.induct)
  case (1 A f a m)
  show ?case
  proof (cases "a < m")
    case True
    then have ab: "a < b" using "1.prems" by simp
    have IH: "agg A f (a + 1) b = node_join A (agg A f (a + 1) m) (agg A f (m + 1) b)"
      using True "1.prems" by (intro "1.IH") auto
    show ?thesis
      by (simp add: agg_step [OF ab] agg_step [OF True] IH laws_assoc [OF "1.prems"(1)])
  next
    case False
    with "1.prems" have "a = m" by simp
    with "1.prems" show ?thesis by (simp add: agg_step)
  qed
qed

lemma apply_agg:
  "laws A W \<Longrightarrow> W u \<Longrightarrow> a \<le> b \<Longrightarrow>
   op_apply A u (agg A f a b) a b = agg A (\<lambda>x. op_apply A u (f x) x x) a b"
proof (induction A f a b rule: agg.induct)
  case (1 A f a b)
  show ?case
  proof (cases "a < b")
    case True
    have IH: "op_apply A u (agg A f (a + 1) b) (a + 1) b
              = agg A (\<lambda>x. op_apply A u (f x) x x) (a + 1) b"
      using True "1.prems" by (intro "1.IH") auto
    have "op_apply A u (node_join A (f a) (agg A f (a + 1) b)) a b
          = node_join A (op_apply A u (f a) a a) (op_apply A u (agg A f (a + 1) b) (a + 1) b)"
      using "1.prems" True by (intro laws_distrib [where W = W]) auto
    then show ?thesis by (simp add: agg_step [OF True] IH)
  next
    case False
    with "1.prems" have "a = b" by simp
    then show ?thesis by simp
  qed
qed

lemma neutral_join: "laws A W \<Longrightarrow> neutral A x \<Longrightarrow> neutral A y \<Longrightarrow> neutral A (node_join A x y)"
proof -
  assume L: "laws A W" and x: "neutral A x" and y: "neutral A y"
  have "node_join A (Node_default A) (node_join A x y) = node_join A x y"
    using x by (simp add: laws_assoc [OF L, symmetric] neutral_def)
  moreover have "node_join A (node_join A x y) (Node_default A) = node_join A x y"
    using y by (simp add: laws_assoc [OF L] neutral_def)
  ultimately show ?thesis by (simp add: neutral_def)
qed

lemma neutral_agg:
  "laws A W \<Longrightarrow> a \<le> b \<Longrightarrow> (\<And>x. a \<le> x \<Longrightarrow> x \<le> b \<Longrightarrow> neutral A (f x)) \<Longrightarrow>
   neutral A (agg A f a b)"
proof (induction A f a b rule: agg.induct)
  case (1 A f a b)
  show ?case
  proof (cases "a < b")
    case True
    have "neutral A (agg A f (a + 1) b)"
      using True "1.prems" by (intro "1.IH") auto
    moreover have "neutral A (f a)" using "1.prems" by simp
    ultimately show ?thesis
      using "1.prems"(1) by (simp add: agg_step [OF True] neutral_join)
  next
    case False
    with "1.prems" have "a = b" by simp
    with "1.prems" show ?thesis by simp
  qed
qed

lemma range_agg_split:
  assumes L: "laws A W" and N: "\<And>x. lo \<le> x \<Longrightarrow> x \<le> hi \<Longrightarrow> neutral A (f x)"
  shows "node_join A (range_agg A f lo (min m hi)) (range_agg A f (max (m + 1) lo) hi)
         = range_agg A f lo hi"
proof -
  consider "hi < lo" | "lo \<le> hi" "hi \<le> m" | "lo \<le> hi" "m < lo" | "lo \<le> m" "m < hi"
    by linarith
  then show ?thesis
  proof cases
    case 1
    then show ?thesis by (simp add: range_agg_def laws_default [OF L] min_def max_def)
  next
    case 2
    have "neutral A (agg A f lo hi)" using 2 N by (intro neutral_agg [OF L]) auto
    with 2 show ?thesis by (simp add: range_agg_def neutral_def min_def max_def)
  next
    case 3
    have "neutral A (agg A f lo hi)" using 3 N by (intro neutral_agg [OF L]) auto
    with 3 show ?thesis by (simp add: range_agg_def neutral_def min_def max_def)
  next
    case 4
    then show ?thesis
      by (simp add: range_agg_def min_def max_def agg_split [OF L, of lo m hi])
  qed
qed

lemma val_leaf: "\<not> (0 \<le> st \<and> st < en) \<Longrightarrow> val A s node st en x = tree s ! nat node"
  by (subst val.simps) auto

lemma val_node:
  "0 \<le> st \<Longrightarrow> st < en \<Longrightarrow>
   val A s node st en x =
     pend_apply A s node
       (if x \<le> mid st en then val A s (left node) st (mid st en) x
        else val A s (right node) (mid st en + 1) en x) x"
  by (subst val.simps) simp

lemma val_cong:
  "(\<And>k. insub node k \<Longrightarrow> same_at s s' k) \<Longrightarrow> val A s' node st en x = val A s node st en x"
proof (induction A s node st en x rule: val.induct)
  case (1 A s node st en x)
  have self: "same_at s s' node" using "1.prems" insub_self by blast
  show ?case
  proof (cases "0 \<le> st \<and> st < en")
    case True
    have l: "val A s' (left node) st (mid st en) x = val A s (left node) st (mid st en) x"
      if "x \<le> mid st en"
      using True that by (intro "1.IH"(1)) (auto intro: "1.prems" insub_left)
    have r: "val A s' (right node) (mid st en + 1) en x = val A s (right node) (mid st en + 1) en x"
      if "\<not> x \<le> mid st en"
      using True that by (intro "1.IH"(2)) (auto intro: "1.prems" insub_right)
    show ?thesis
      using True self l r by (simp add: val_node pend_apply_def same_at_def)
  next
    case False
    then show ?thesis using self by (simp add: val_leaf same_at_def)
  qed
qed

lemma consistent_leaf:
  "\<not> (0 \<le> st \<and> st < en) \<Longrightarrow>
   consistent A W s node st en \<longleftrightarrow> tree s ! nat node = agg A (val A s node st en) st en"
  by (subst consistent.simps) auto

lemma consistent_node:
  "0 \<le> st \<Longrightarrow> st < en \<Longrightarrow>
   consistent A W s node st en \<longleftrightarrow>
     tree s ! nat node = agg A (val A s node st en) st en \<and>
     (hasPending s ! nat node \<longrightarrow> W (pending s ! nat node)) \<and>
     consistent A W s (left node) st (mid st en) \<and>
     consistent A W s (right node) (mid st en + 1) en"
  by (subst consistent.simps) simp

lemma consistent_cong:
  "(\<And>k. insub node k \<Longrightarrow> same_at s s' k) \<Longrightarrow>
   consistent A W s' node st en = consistent A W s node st en"
proof (induction A W s node st en rule: consistent.induct)
  case (1 A W s node st en)
  have self: "same_at s s' node" using "1.prems" insub_self by blast
  have v: "val A s' node st en = val A s node st en"
    by (rule ext) (rule val_cong, rule "1.prems")
  show ?case
  proof (cases "0 \<le> st \<and> st < en")
    case True
    have l: "consistent A W s' (left node) st (mid st en) = consistent A W s (left node) st (mid st en)"
      using True by (intro "1.IH"(1)) (auto intro: "1.prems" insub_left)
    have r: "consistent A W s' (right node) (mid st en + 1) en
             = consistent A W s (right node) (mid st en + 1) en"
      using True by (intro "1.IH"(2)) (auto intro: "1.prems" insub_right)
    show ?thesis
      using True self l r v by (simp add: consistent_node same_at_def)
  next
    case False
    then show ?thesis using self v by (simp add: consistent_leaf same_at_def)
  qed
qed

lemma frame_refl [simp]: "frame node s s"
  by (simp add: frame_def same_at_def)

lemma frame_trans:
  "frame node s s1 \<Longrightarrow> frame node s1 s2 \<Longrightarrow> frame node s s2"
  by (simp add: frame_def same_at_def)

lemma frame_left: "frame (left node) s s' \<Longrightarrow> frame node s s'"
  unfolding frame_def using insub_left by blast

lemma frame_right: "frame (right node) s s' \<Longrightarrow> frame node s s'"
  unfolding frame_def using insub_right by blast

lemma frame_lens: "frame node s s' \<Longrightarrow> lens c s \<Longrightarrow> lens c s'"
  by (simp add: frame_def lens_def)

text \<open>What a subtree holds is untouched by a call on a position outside the subtree.\<close>

lemma frame_left_keeps_right:
  assumes "frame (left node) s s'" "1 \<le> node" "insub (right node) k"
  shows "same_at s s' k"
proof -
  have "\<not> insub (left node) k" using insub_not_both [OF assms(2) _ assms(3)] by blast
  moreover have "0 \<le> k"
  proof -
    from assms(3) obtain d :: nat where d: "k div 2 ^ d = right node" by (auto simp: insub_def)
    show ?thesis
    proof (rule ccontr)
      assume "\<not> 0 \<le> k"
      then have "k div 2 ^ d < 0" by (simp add: div_neg_pos_less0)
      with d assms(2) show False by (simp add: right_def)
    qed
  qed
  ultimately show ?thesis using assms(1) by (simp add: frame_def)
qed

lemma insub_nonneg: "insub node k \<Longrightarrow> 0 \<le> node \<Longrightarrow> 0 \<le> k"
proof (rule ccontr)
  assume i: "insub node k" and n: "0 \<le> node" and "\<not> 0 \<le> k"
  from i obtain d :: nat where d: "k div 2 ^ d = node" by (auto simp: insub_def)
  from \<open>\<not> 0 \<le> k\<close> have "k div 2 ^ d < 0" by (simp add: div_neg_pos_less0)
  with d n show False by simp
qed

lemma frame_right_keeps_left:
  assumes "frame (right node) s s'" "1 \<le> node" "insub (left node) k"
  shows "same_at s s' k"
proof -
  have "\<not> insub (right node) k" using insub_not_both [OF assms(2,3)] by blast
  moreover have "0 \<le> k" using insub_nonneg [OF assms(3)] assms(2) by (simp add: left_def)
  ultimately show ?thesis using assms(1) by (simp add: frame_def)
qed

lemma frame_child_keeps_self:
  assumes "1 \<le> node"
  shows "frame (left node) s s' \<Longrightarrow> same_at s s' node" "frame (right node) s s' \<Longrightarrow> same_at s s' node"
  using insub_child_not_self [OF assms] assms by (auto simp: frame_def)

lemma pos_node: "pos c node st en \<Longrightarrow> 1 \<le> node \<and> node < int c"
  using fits_node by (auto simp: pos_def)

lemma pos_children:
  assumes "pos c node st en" "st < en"
  shows "pos c (left node) st (mid st en)" "pos c (right node) (mid st en + 1) en"
proof -
  from assms have st: "0 \<le> st" and f: "fits (int c) node (en - st + 1)" by (auto simp: pos_def)
  from mid_bounds [OF st assms(2)] have m: "st \<le> mid st en" "mid st en < en" by auto
  from fits_children [OF f st assms(2)] st m
  show "pos c (left node) st (mid st en)" "pos c (right node) (mid st en + 1) en"
    by (auto simp: pos_def)
qed

lemma pos_root: "1 \<le> n \<Longrightarrow> pos (nat (4 * n + 1)) 1 0 (n - 1)"
  using fits_root [of n] by (simp add: pos_def)

lemma update_outside: "j < st \<or> en < i \<Longrightarrow> update A node st en i j u s = ok s"
  by (subst update_unfold) auto

lemma update_leaf_eq:
  assumes "i \<le> st" "st \<le> j" "0 \<le> node" "node < int (length (tree s))"
  shows "update A node st st i j u s
         = ok (s\<lparr>tree := (tree s)[nat node := op_apply A u (tree s ! nat node) st st]\<rparr>)"
  using assms by (subst update_unfold) (simp add: vget_ok set_tree_ok)

lemma update_contained_eq:
  assumes "st < en" "i \<le> st" "en \<le> j" "0 \<le> node" "node < int c" "lens c s"
  shows "update A node st en i j u s =
         ok (s\<lparr>tree := (tree s)[nat node := op_apply A u (tree s ! nat node) st en],
               pending := (pending s)[nat node :=
                  (if hasPending s ! nat node then op_merge A (pending s ! nat node) u st en else u)],
               hasPending := (hasPending s)[nat node := True]\<rparr>)"
  using assms
  by (subst update_unfold)
     (simp add: lens_def vget_ok set_tree_ok set_pending_ok set_hasPending_ok)

lemma point_frame:
  assumes "tsize s' = tsize s" "tree s' = (tree s)[nat node := t]"
    and "hasPending s' = (hasPending s)[nat node := h]" "pending s' = (pending s)[nat node := p]"
    and "0 \<le> node"
  shows "frame node s s'" and "\<And>k. 0 \<le> k \<Longrightarrow> k \<noteq> node \<Longrightarrow> same_at s s' k"
proof -
  show *: "\<And>k. 0 \<le> k \<Longrightarrow> k \<noteq> node \<Longrightarrow> same_at s s' k"
  proof -
    fix k :: int assume "0 \<le> k" "k \<noteq> node"
    with assms(5) have "nat node \<noteq> nat k" by simp
    then show "same_at s s' k" by (simp add: same_at_def assms(2-4))
  qed
  show "frame node s s'"
    unfolding frame_def using * insub_self [of node] by (auto simp: assms(1-4))
qed

lemma point_children:
  assumes "\<And>k. 0 \<le> k \<Longrightarrow> k \<noteq> node \<Longrightarrow> same_at s s' k" "1 \<le> node"
  shows "insub (left node) k \<Longrightarrow> same_at s s' k" "insub (right node) k \<Longrightarrow> same_at s s' k"
proof -
  show "insub (left node) k \<Longrightarrow> same_at s s' k"
  proof -
    assume i: "insub (left node) k"
    then have "k \<noteq> node" using insub_child_not_self(1) [OF assms(2)] by blast
    moreover have "0 \<le> k" using insub_nonneg [OF i] assms(2) by (simp add: left_def)
    ultimately show ?thesis by (rule assms(1) [rotated])
  qed
  show "insub (right node) k \<Longrightarrow> same_at s s' k"
  proof -
    assume i: "insub (right node) k"
    then have "k \<noteq> node" using insub_child_not_self(2) [OF assms(2)] by blast
    moreover have "0 \<le> k" using insub_nonneg [OF i] assms(2) by (simp add: right_def)
    ultimately show ?thesis by (rule assms(1) [rotated])
  qed
qed

lemma update_full:
  assumes L: "laws A W" and u: "W u" and P: "pos c node st en" and len: "lens c s"
    and C: "consistent A W s node st en" and I: "i \<le> st" "en \<le> j"
  shows "\<exists>s'. update A node st en i j u s = ok s' \<and> frame node s s' \<and>
           consistent A W s' node st en \<and>
           (\<forall>x. st \<le> x \<and> x \<le> en \<longrightarrow>
              val A s' node st en x = op_apply A u (val A s node st en x) x x)"
proof -
  from pos_node [OF P] have n: "1 \<le> node" "node < int c" by auto
  from P have st: "0 \<le> st" "st \<le> en" by (auto simp: pos_def)
  from len n have nt: "node < int (length (tree s))" by (simp add: lens_def)
  show ?thesis
  proof (cases "st = en")
    case True
    define s' where "s' = s\<lparr>tree := (tree s)[nat node := op_apply A u (tree s ! nat node) st st]\<rparr>"
    have eq: "update A node st en i j u s = ok s'"
      unfolding s'_def True [symmetric] using I n nt True by (intro update_leaf_eq) auto
    have fr: "frame node s s'"
      using n by (intro point_frame(1) [where t = "op_apply A u (tree s ! nat node) st st"
            and h = "hasPending s ! nat node" and p = "pending s ! nat node"])
        (auto simp: s'_def)
    have vs: "val A s node st en x = tree s ! nat node" for x
      using True by (simp add: val_leaf)
    have vs': "val A s' node st en x = op_apply A u (tree s ! nat node) st st" for x
      using True nt n by (simp add: val_leaf s'_def)
    have "consistent A W s' node st en"
      using True by (simp add: consistent_leaf val_leaf)
    moreover have "\<forall>x. st \<le> x \<and> x \<le> en \<longrightarrow>
              val A s' node st en x = op_apply A u (val A s node st en x) x x"
    proof (intro allI impI)
      fix x assume "st \<le> x \<and> x \<le> en"
      with True have "x = st" by simp
      then show "val A s' node st en x = op_apply A u (val A s node st en x) x x"
        by (simp only: vs vs')
    qed
    ultimately show ?thesis using eq fr by blast
  next
    case False
    with st have lt: "st < en" by simp
    define p' where "p' = (if hasPending s ! nat node then op_merge A (pending s ! nat node) u st en else u)"
    define s' where "s' = s\<lparr>tree := (tree s)[nat node := op_apply A u (tree s ! nat node) st en],
               pending := (pending s)[nat node := p'],
               hasPending := (hasPending s)[nat node := True]\<rparr>"
    have eq: "update A node st en i j u s = ok s'"
      unfolding s'_def p'_def using lt I n len by (intro update_contained_eq) auto
    have a: "tsize s' = tsize s"
      "tree s' = (tree s)[nat node := op_apply A u (tree s ! nat node) st en]"
      "hasPending s' = (hasPending s)[nat node := True]"
      "pending s' = (pending s)[nat node := p']"
      by (simp_all add: s'_def)
    have n0: "0 \<le> node" using n by simp
    note pf = point_frame [OF a n0]
    note ch = point_children [OF pf(2) n(1)]
    from C lt st have C0: "tree s ! nat node = agg A (val A s node st en) st en"
      and Wp: "hasPending s ! nat node \<Longrightarrow> W (pending s ! nat node)"
      and Cl: "consistent A W s (left node) st (mid st en)"
      and Cr: "consistent A W s (right node) (mid st en + 1) en"
      by (simp_all add: consistent_node)
    have Wp': "W p'"
      using Wp u by (simp add: p'_def laws_merge_closed [OF L])
    have hp': "hasPending s' ! nat node" "pending s' ! nat node = p'"
      "tree s' ! nat node = op_apply A u (tree s ! nat node) st en"
      using n len by (simp_all add: s'_def lens_def)
    have vl: "val A s' (left node) st (mid st en) x = val A s (left node) st (mid st en) x" for x
      by (rule val_cong) (rule ch(1))
    have vr: "val A s' (right node) (mid st en + 1) en x = val A s (right node) (mid st en + 1) en x" for x
      by (rule val_cong) (rule ch(2))
    have v: "val A s' node st en x = op_apply A u (val A s node st en x) x x"
      if x: "st \<le> x" "x \<le> en" for x
    proof -
      define cv where "cv = (if x \<le> mid st en then val A s (left node) st (mid st en) x
                             else val A s (right node) (mid st en + 1) en x)"
      have a: "val A s' node st en x = op_apply A p' cv x x"
        using st lt hp' by (simp add: val_node pend_apply_def vl vr cv_def)
      have b: "val A s node st en x = (if hasPending s ! nat node
                  then op_apply A (pending s ! nat node) cv x x else cv)"
        using st lt by (simp add: val_node pend_apply_def cv_def)
      show ?thesis
      proof (cases "hasPending s ! nat node")
        case True
        have "op_apply A (op_merge A (pending s ! nat node) u st en) cv x x
              = op_apply A u (op_apply A (pending s ! nat node) cv x x) x x"
          using x Wp [OF True] u by (intro laws_merge [OF L]) auto
        with True show ?thesis by (simp add: a b p'_def)
      next
        case False
        then show ?thesis by (simp add: a b p'_def)
      qed
    qed
    have "agg A (val A s' node st en) st en = agg A (\<lambda>x. op_apply A u (val A s node st en x) x x) st en"
      using st by (intro agg_cong) (auto simp: v)
    also have "\<dots> = op_apply A u (agg A (val A s node st en) st en) st en"
      using st u by (simp add: apply_agg [OF L])
    finally have t: "tree s' ! nat node = agg A (val A s' node st en) st en"
      by (simp add: hp' C0)
    have "consistent A W s' (left node) st (mid st en)"
      using Cl consistent_cong [of "left node" s s' A W st "mid st en"] ch(1) by blast
    moreover have "consistent A W s' (right node) (mid st en + 1) en"
      using Cr consistent_cong [of "right node" s s' A W "mid st en + 1" en] ch(2) by blast
    ultimately have "consistent A W s' node st en"
      using st lt t hp' Wp' by (simp add: consistent_node)
    with eq pf(1) v show ?thesis by blast
  qed
qed

lemma applyPending_correct:
  assumes L: "laws A W" and P: "pos c node st en" and lt: "st < en" and len: "lens c s"
    and C: "consistent A W s node st en"
  shows "\<exists>s1. applyPending A node st en s = ok s1 \<and> frame node s s1 \<and>
           \<not> hasPending s1 ! nat node \<and> tree s1 ! nat node = tree s ! nat node \<and>
           consistent A W s1 (left node) st (mid st en) \<and>
           consistent A W s1 (right node) (mid st en + 1) en \<and>
           (\<forall>x. st \<le> x \<and> x \<le> mid st en \<longrightarrow>
              val A s1 (left node) st (mid st en) x = val A s node st en x) \<and>
           (\<forall>x. mid st en < x \<and> x \<le> en \<longrightarrow>
              val A s1 (right node) (mid st en + 1) en x = val A s node st en x)"
proof -
  from pos_node [OF P] have n: "1 \<le> node" "node < int c" by auto
  from P have st: "0 \<le> st" by (auto simp: pos_def)
  from mid_bounds [OF st lt] have m: "st \<le> mid st en" "mid st en < en" by auto
  note Pl = pos_children(1) [OF P lt] and Pr = pos_children(2) [OF P lt]
  from C lt st have Wp: "hasPending s ! nat node \<Longrightarrow> W (pending s ! nat node)"
    and Cl: "consistent A W s (left node) st (mid st en)"
    and Cr: "consistent A W s (right node) (mid st en + 1) en"
    by (simp_all add: consistent_node)
  have bounds: "0 \<le> node" "node < int (length (hasPending s))" "node < int (length (pending s))"
    using n len by (simp_all add: lens_def)
  show ?thesis
  proof (cases "hasPending s ! nat node")
    case False
    have eq: "applyPending A node st en s = ok s"
      using False bounds by (simp add: applyPending_def vget_ok)
    have "val A s (left node) st (mid st en) x = val A s node st en x" if "x \<le> mid st en" for x
      using False st lt that by (simp add: val_node [of st en] pend_apply_def)
    moreover have "val A s (right node) (mid st en + 1) en x = val A s node st en x"
      if "mid st en < x" for x
      using False st lt that by (simp add: val_node [of st en] pend_apply_def)
    ultimately show ?thesis using eq False Cl Cr by auto
  next
    case True
    define p where "p = pending s ! nat node"
    have Wp': "W p" using Wp [OF True] by (simp add: p_def)
    from update_full [OF L Wp' Pl len Cl, of st en] m
    obtain sa where sa: "update A (left node) st (mid st en) st en p s = ok sa"
      and fa: "frame (left node) s sa"
      and Ca: "consistent A W sa (left node) st (mid st en)"
      and va: "\<And>x. st \<le> x \<Longrightarrow> x \<le> mid st en \<Longrightarrow>
                val A sa (left node) st (mid st en) x
                  = op_apply A p (val A s (left node) st (mid st en) x) x x"
      by auto
    have lena: "lens c sa" using frame_lens [OF fa len] .
    have selfa: "same_at s sa node" using frame_child_keeps_self(1) [OF n(1) fa] .
    have ra: "\<And>k. insub (right node) k \<Longrightarrow> same_at s sa k"
      using frame_left_keeps_right [OF fa n(1)] .
    have Cra: "consistent A W sa (right node) (mid st en + 1) en"
      using Cr consistent_cong [of "right node" s sa A W "mid st en + 1" en] ra by blast
    have vra: "val A sa (right node) (mid st en + 1) en x = val A s (right node) (mid st en + 1) en x" for x
      by (rule val_cong) (rule ra)
    have pa: "pending sa ! nat node = p" using selfa by (simp add: same_at_def p_def)
    from update_full [OF L Wp' Pr lena Cra, of st en] m
    obtain sb where sb: "update A (right node) (mid st en + 1) en st en p sa = ok sb"
      and fb: "frame (right node) sa sb"
      and Cb: "consistent A W sb (right node) (mid st en + 1) en"
      and vb: "\<And>x. mid st en + 1 \<le> x \<Longrightarrow> x \<le> en \<Longrightarrow>
                val A sb (right node) (mid st en + 1) en x
                  = op_apply A p (val A sa (right node) (mid st en + 1) en x) x x"
      by auto
    have lenb: "lens c sb" using frame_lens [OF fb lena] .
    have selfb: "same_at sa sb node" using frame_child_keeps_self(2) [OF n(1) fb] .
    have lb: "\<And>k. insub (left node) k \<Longrightarrow> same_at sa sb k"
      using frame_right_keeps_left [OF fb n(1)] .
    have Clb: "consistent A W sb (left node) st (mid st en)"
      using Ca consistent_cong [of "left node" sa sb A W st "mid st en"] lb by blast
    have vlb: "val A sb (left node) st (mid st en) x = val A sa (left node) st (mid st en) x" for x
      by (rule val_cong) (rule lb)
    define s1 where "s1 = sb\<lparr>hasPending := (hasPending sb)[nat node := False]\<rparr>"
    have a: "tsize s1 = tsize sb" "tree s1 = (tree sb)[nat node := tree sb ! nat node]"
      "hasPending s1 = (hasPending sb)[nat node := False]"
      "pending s1 = (pending sb)[nat node := pending sb ! nat node]"
      by (simp_all add: s1_def)
    note pf = point_frame [OF a bounds(1)]
    note ch = point_children [OF pf(2) n(1)]
    have eq: "applyPending A node st en s = ok s1"
      using True bounds n lena lenb sa sb pa
      by (simp add: applyPending_def vget_ok set_hasPending_ok lens_def p_def s1_def)
    have fr: "frame node s s1"
      using frame_trans [OF frame_trans [OF frame_left [OF fa] frame_right [OF fb]] pf(1)] .
    have hp1: "\<not> hasPending s1 ! nat node"
      using n lenb by (simp add: s1_def lens_def)
    have t1: "tree s1 ! nat node = tree s ! nat node"
      using selfa selfb by (simp add: s1_def same_at_def)
    have C1l: "consistent A W s1 (left node) st (mid st en)"
      using Clb consistent_cong [of "left node" sb s1 A W st "mid st en"] ch(1) by blast
    have C1r: "consistent A W s1 (right node) (mid st en + 1) en"
      using Cb consistent_cong [of "right node" sb s1 A W "mid st en + 1" en] ch(2) by blast
    have v1l: "val A s1 (left node) st (mid st en) x = val A s node st en x"
      if "st \<le> x" "x \<le> mid st en" for x
    proof -
      have "val A s1 (left node) st (mid st en) x = val A sb (left node) st (mid st en) x"
        by (rule val_cong) (rule ch(1))
      also have "\<dots> = op_apply A p (val A s (left node) st (mid st en) x) x x"
        using that by (simp add: vlb va)
      also have "\<dots> = val A s node st en x"
        using True st lt that by (simp add: val_node [of st en] pend_apply_def p_def)
      finally show ?thesis .
    qed
    have v1r: "val A s1 (right node) (mid st en + 1) en x = val A s node st en x"
      if "mid st en < x" "x \<le> en" for x
    proof -
      have "val A s1 (right node) (mid st en + 1) en x = val A sb (right node) (mid st en + 1) en x"
        by (rule val_cong) (rule ch(2))
      also have "\<dots> = op_apply A p (val A s (right node) (mid st en + 1) en x) x x"
        using that by (simp add: vra vb)
      also have "\<dots> = val A s node st en x"
        using True st lt that by (simp add: val_node [of st en] pend_apply_def p_def)
      finally show ?thesis .
    qed
    from eq fr hp1 t1 C1l C1r v1l v1r show ?thesis by blast
  qed
qed

lemma pull_correct:
  assumes L: "laws A W" and P: "pos c node st en" and lt: "st < en" and len: "lens c s"
    and hp: "\<not> hasPending s ! nat node"
    and Cl: "consistent A W s (left node) st (mid st en)"
    and Cr: "consistent A W s (right node) (mid st en + 1) en"
  shows "\<exists>s'. pull A node s = ok s' \<and> frame node s s' \<and> consistent A W s' node st en \<and>
           hasPending s' = hasPending s \<and> pending s' = pending s \<and>
           (\<forall>x. val A s' node st en x =
                 (if x \<le> mid st en then val A s (left node) st (mid st en) x
                  else val A s (right node) (mid st en + 1) en x))"
proof -
  from pos_node [OF P] have n: "1 \<le> node" "node < int c" by auto
  from P have st: "0 \<le> st" by (auto simp: pos_def)
  from mid_bounds [OF st lt] have m: "st \<le> mid st en" "mid st en < en" by auto
  from pos_node [OF pos_children(1) [OF P lt]] have nl: "1 \<le> left node" "left node < int c" by auto
  from pos_node [OF pos_children(2) [OF P lt]] have nr: "1 \<le> right node" "right node < int c" by auto
  define t where "t = node_join A (tree s ! nat (left node)) (tree s ! nat (right node))"
  define s' where "s' = s\<lparr>tree := (tree s)[nat node := t]\<rparr>"
  have eq: "pull A node s = ok s'"
    using n nl nr len by (simp add: pull_def vget_ok set_tree_ok lens_def s'_def t_def)
  have a: "tsize s' = tsize s" "tree s' = (tree s)[nat node := t]"
    "hasPending s' = (hasPending s)[nat node := hasPending s ! nat node]"
    "pending s' = (pending s)[nat node := pending s ! nat node]"
    by (simp_all add: s'_def)
  have n0: "0 \<le> node" using n by simp
  note pf = point_frame [OF a n0]
  note ch = point_children [OF pf(2) n(1)]
  have vl: "val A s' (left node) st (mid st en) x = val A s (left node) st (mid st en) x" for x
    by (rule val_cong) (rule ch(1))
  have vr: "val A s' (right node) (mid st en + 1) en x = val A s (right node) (mid st en + 1) en x" for x
    by (rule val_cong) (rule ch(2))
  have hp': "\<not> hasPending s' ! nat node" using hp by (simp add: s'_def)
  have v: "val A s' node st en x =
                 (if x \<le> mid st en then val A s (left node) st (mid st en) x
                  else val A s (right node) (mid st en + 1) en x)" for x
    using st lt hp' by (simp add: val_node [of st en] pend_apply_def vl vr)
  have Cl': "consistent A W s' (left node) st (mid st en)"
    using Cl consistent_cong [of "left node" s s' A W st "mid st en"] ch(1) by blast
  have Cr': "consistent A W s' (right node) (mid st en + 1) en"
    using Cr consistent_cong [of "right node" s s' A W "mid st en + 1" en] ch(2) by blast
  have tl: "tree s ! nat (left node) = agg A (val A s (left node) st (mid st en)) st (mid st en)"
    using Cl by (subst (asm) consistent.simps) simp
  have tr: "tree s ! nat (right node)
            = agg A (val A s (right node) (mid st en + 1) en) (mid st en + 1) en"
    using Cr by (subst (asm) consistent.simps) simp
  have "agg A (val A s' node st en) st (mid st en) = agg A (val A s (left node) st (mid st en)) st (mid st en)"
    using m by (intro agg_cong) (auto simp: v)
  moreover have "agg A (val A s' node st en) (mid st en + 1) en
                 = agg A (val A s (right node) (mid st en + 1) en) (mid st en + 1) en"
    using m by (intro agg_cong) (auto simp: v)
  ultimately have "agg A (val A s' node st en) st en = t"
    using m by (simp add: agg_split [OF L, of st "mid st en" en] t_def tl tr)
  moreover have "tree s' ! nat node = t" using n len by (simp add: s'_def lens_def)
  ultimately have "consistent A W s' node st en"
    using st lt hp' Cl' Cr' by (simp add: consistent_node)
  moreover have "hasPending s' = hasPending s" "pending s' = pending s" by (simp_all add: s'_def)
  ultimately show ?thesis using eq pf(1) v by blast
qed

lemma update_partial:
  assumes "\<not> (j < st \<or> en < i)" "st \<noteq> en" "\<not> (i \<le> st \<and> en \<le> j)"
  shows "update A node st en i j u s =
        bnd (applyPending A node st en s) (\<lambda>s1.
        bnd (if i \<le> mid st en then update A (left node) st (mid st en) i j u s1 else ok s1) (\<lambda>s2.
        bnd (if j > mid st en then update A (right node) (mid st en + 1) en i j u s2 else ok s2) (\<lambda>s3.
        pull A node s3)))"
  using assms by (subst update_unfold) auto

lemma update_correct:
  assumes L: "laws A W" and u: "W u"
  shows "pos c node st en \<Longrightarrow> lens c s \<Longrightarrow> consistent A W s node st en \<Longrightarrow>
         \<exists>s'. update A node st en i j u s = ok s' \<and> frame node s s' \<and>
           consistent A W s' node st en \<and>
           (\<forall>x. st \<le> x \<and> x \<le> en \<longrightarrow>
              val A s' node st en x =
                (if i \<le> x \<and> x \<le> j then op_apply A u (val A s node st en x) x x
                 else val A s node st en x))"
proof (induction "nat (en - st)" arbitrary: node st en s rule: less_induct)
  case less
  note P = less.prems(1) and len = less.prems(2) and C = less.prems(3)
  from P have st: "0 \<le> st" "st \<le> en" by (auto simp: pos_def)
  consider "j < st \<or> en < i" | "i \<le> st \<and> en \<le> j" "\<not> (j < st \<or> en < i)"
    | "\<not> (j < st \<or> en < i)" "\<not> (i \<le> st \<and> en \<le> j)" by blast
  then show ?case
  proof cases
    case 1
    then have "update A node st en i j u s = ok s" by (rule update_outside)
    moreover from 1 have "\<forall>x. st \<le> x \<and> x \<le> en \<longrightarrow> \<not> (i \<le> x \<and> x \<le> j)" by auto
    ultimately show ?thesis using C by auto
  next
    case 2
    from update_full [OF L u P len C, of i j] 2(1)
    obtain s' where s': "update A node st en i j u s = ok s'" "frame node s s'"
      "consistent A W s' node st en"
      "\<And>x. st \<le> x \<Longrightarrow> x \<le> en \<Longrightarrow> val A s' node st en x = op_apply A u (val A s node st en x) x x"
      by auto
    moreover from 2(1) have "\<forall>x. st \<le> x \<and> x \<le> en \<longrightarrow> i \<le> x \<and> x \<le> j" by auto
    ultimately show ?thesis by (intro exI [of _ s']) auto
  next
    case 3
    with st have lt: "st < en" by linarith
    from pos_node [OF P] have n: "1 \<le> node" "node < int c" by auto
    from mid_bounds [OF st(1) lt] have m: "st \<le> mid st en" "mid st en < en" by auto
    note Pl = pos_children(1) [OF P lt] and Pr = pos_children(2) [OF P lt]
    from applyPending_correct [OF L P lt len C]
    obtain s1 where s1: "applyPending A node st en s = ok s1" and f1: "frame node s s1"
      and hp1: "\<not> hasPending s1 ! nat node"
      and C1l: "consistent A W s1 (left node) st (mid st en)"
      and C1r: "consistent A W s1 (right node) (mid st en + 1) en"
      and v1l: "\<And>x. st \<le> x \<Longrightarrow> x \<le> mid st en \<Longrightarrow>
                  val A s1 (left node) st (mid st en) x = val A s node st en x"
      and v1r: "\<And>x. mid st en < x \<Longrightarrow> x \<le> en \<Longrightarrow>
                  val A s1 (right node) (mid st en + 1) en x = val A s node st en x"
      by blast
    have len1: "lens c s1" using frame_lens [OF f1 len] .
    \<comment> \<open>the left half\<close>
    have "\<exists>s2. (if i \<le> mid st en then update A (left node) st (mid st en) i j u s1 else ok s1) = ok s2 \<and>
            frame (left node) s1 s2 \<and> consistent A W s2 (left node) st (mid st en) \<and>
            (\<forall>x. st \<le> x \<and> x \<le> mid st en \<longrightarrow>
               val A s2 (left node) st (mid st en) x =
                 (if i \<le> x \<and> x \<le> j then op_apply A u (val A s1 (left node) st (mid st en) x) x x
                  else val A s1 (left node) st (mid st en) x))"
    proof (cases "i \<le> mid st en")
      case True
      have "nat (mid st en - st) < nat (en - st)" using m by simp
      from less.hyps [OF this Pl len1 C1l] True show ?thesis by simp
    next
      case False
      then show ?thesis using C1l by (intro exI [of _ s1]) auto
    qed
    then obtain s2 where s2: "(if i \<le> mid st en then update A (left node) st (mid st en) i j u s1 else ok s1) = ok s2"
      and f2: "frame (left node) s1 s2" and C2l: "consistent A W s2 (left node) st (mid st en)"
      and v2l: "\<And>x. st \<le> x \<Longrightarrow> x \<le> mid st en \<Longrightarrow>
               val A s2 (left node) st (mid st en) x =
                 (if i \<le> x \<and> x \<le> j then op_apply A u (val A s1 (left node) st (mid st en) x) x x
                  else val A s1 (left node) st (mid st en) x)"
      by blast
    have len2: "lens c s2" using frame_lens [OF f2 len1] .
    have r2: "\<And>k. insub (right node) k \<Longrightarrow> same_at s1 s2 k"
      using frame_left_keeps_right [OF f2 n(1)] .
    have C2r: "consistent A W s2 (right node) (mid st en + 1) en"
      using C1r consistent_cong [of "right node" s1 s2 A W "mid st en + 1" en] r2 by blast
    have v2r: "val A s2 (right node) (mid st en + 1) en x = val A s1 (right node) (mid st en + 1) en x" for x
      by (rule val_cong) (rule r2)
    have hp2: "\<not> hasPending s2 ! nat node"
      using hp1 frame_child_keeps_self(1) [OF n(1) f2] by (simp add: same_at_def)
    \<comment> \<open>the right half\<close>
    have "\<exists>s3. (if j > mid st en then update A (right node) (mid st en + 1) en i j u s2 else ok s2) = ok s3 \<and>
            frame (right node) s2 s3 \<and> consistent A W s3 (right node) (mid st en + 1) en \<and>
            (\<forall>x. mid st en + 1 \<le> x \<and> x \<le> en \<longrightarrow>
               val A s3 (right node) (mid st en + 1) en x =
                 (if i \<le> x \<and> x \<le> j then op_apply A u (val A s2 (right node) (mid st en + 1) en x) x x
                  else val A s2 (right node) (mid st en + 1) en x))"
    proof (cases "j > mid st en")
      case True
      have "nat (en - (mid st en + 1)) < nat (en - st)" using m by simp
      from less.hyps [OF this Pr len2 C2r] True show ?thesis by simp
    next
      case False
      then show ?thesis using C2r by (intro exI [of _ s2]) auto
    qed
    then obtain s3 where s3: "(if j > mid st en then update A (right node) (mid st en + 1) en i j u s2 else ok s2) = ok s3"
      and f3: "frame (right node) s2 s3" and C3r: "consistent A W s3 (right node) (mid st en + 1) en"
      and v3r: "\<And>x. mid st en + 1 \<le> x \<Longrightarrow> x \<le> en \<Longrightarrow>
               val A s3 (right node) (mid st en + 1) en x =
                 (if i \<le> x \<and> x \<le> j then op_apply A u (val A s2 (right node) (mid st en + 1) en x) x x
                  else val A s2 (right node) (mid st en + 1) en x)"
      by blast
    have len3: "lens c s3" using frame_lens [OF f3 len2] .
    have l3: "\<And>k. insub (left node) k \<Longrightarrow> same_at s2 s3 k"
      using frame_right_keeps_left [OF f3 n(1)] .
    have C3l: "consistent A W s3 (left node) st (mid st en)"
      using C2l consistent_cong [of "left node" s2 s3 A W st "mid st en"] l3 by blast
    have v3l: "val A s3 (left node) st (mid st en) x = val A s2 (left node) st (mid st en) x" for x
      by (rule val_cong) (rule l3)
    have hp3: "\<not> hasPending s3 ! nat node"
      using hp2 frame_child_keeps_self(2) [OF n(1) f3] by (simp add: same_at_def)
    from pull_correct [OF L P lt len3 hp3 C3l C3r]
    obtain s' where s': "pull A node s3 = ok s'" and f': "frame node s3 s'"
      and C': "consistent A W s' node st en"
      and v': "\<And>x. val A s' node st en x =
                 (if x \<le> mid st en then val A s3 (left node) st (mid st en) x
                  else val A s3 (right node) (mid st en + 1) en x)"
      by blast
    have eq: "update A node st en i j u s = ok s'"
    proof -
      have "st \<noteq> en" using lt by simp
      then show ?thesis
        by (subst update_partial [OF 3(1) _ 3(2)]) (simp_all add: s1 s2 s3 s')
    qed
    have fr: "frame node s s'"
      using frame_trans [OF frame_trans [OF frame_trans [OF f1 frame_left [OF f2]] frame_right [OF f3]] f'] .
    have v: "val A s' node st en x =
                (if i \<le> x \<and> x \<le> j then op_apply A u (val A s node st en x) x x
                 else val A s node st en x)" if x: "st \<le> x" "x \<le> en" for x
    proof (cases "x \<le> mid st en")
      case True
      then show ?thesis using x by (simp add: v' v3l v2l v1l)
    next
      case False
      then show ?thesis using x by (simp add: v' v3r v2r v1r)
    qed
    from eq fr C' v show ?thesis by blast
  qed
qed

lemma query_outside: "j < st \<or> en < i \<Longrightarrow> query A node st en i j s = ok (s, Node_default A)"
  by (subst query.simps) auto

lemma query_contained:
  assumes "\<not> (j < st \<or> en < i)" "i \<le> st" "en \<le> j" "0 \<le> node" "node < int (length (tree s))"
  shows "query A node st en i j s = ok (s, tree s ! nat node)"
  using assms by (subst query.simps) (auto simp: vget_ok)

lemma query_partial:
  assumes "\<not> (j < st \<or> en < i)" "\<not> (i \<le> st \<and> en \<le> j)"
  shows "query A node st en i j s =
        bnd (applyPending A node st en s) (\<lambda>s1.
        bnd (query A (left node) st (mid st en) i j s1) (\<lambda>(s2, p1).
        bnd (query A (right node) (mid st en + 1) en i j s2) (\<lambda>(s3, p2).
        ok (s3, node_join A p1 p2))))"
  using assms by (subst query.simps) auto

lemma consistent_tree:
  "consistent A W s node st en \<Longrightarrow> tree s ! nat node = agg A (val A s node st en) st en"
  by (subst (asm) consistent.simps) simp

lemma consistent_after_push:
  assumes "0 \<le> st" "st < en" "\<not> hasPending s1 ! nat node"
    and "tree s1 ! nat node = tree s ! nat node"
    and "consistent A W s node st en"
    and "consistent A W s1 (left node) st (mid st en)"
    and "consistent A W s1 (right node) (mid st en + 1) en"
    and "\<And>x. st \<le> x \<Longrightarrow> x \<le> en \<Longrightarrow> val A s1 node st en x = val A s node st en x"
  shows "consistent A W s1 node st en"
proof -
  have "agg A (val A s1 node st en) st en = agg A (val A s node st en) st en"
    using assms(2) by (intro agg_cong) (auto simp: assms(8))
  then show ?thesis
    using assms by (simp add: consistent_node consistent_tree)
qed

lemma build_leaf:
  assumes "0 \<le> st" "st < int (length arr)" "0 \<le> node" "node < int (length (tree s))"
  shows "build A arr node st st s = ok (s\<lparr>tree := (tree s)[nat node := Node_leaf A st (arr ! nat st)]\<rparr>)"
  using assms by (subst build.simps) (simp add: vget_ok set_tree_ok)

lemma build_node:
  "st \<noteq> en \<Longrightarrow> build A arr node st en s =
        bnd (build A arr (left node) st (mid st en) s) (\<lambda>s1.
        bnd (build A arr (right node) (mid st en + 1) en s1) (\<lambda>s2.
        pull A node s2))"
  by (subst build.simps) simp

lemma build_correct:
  assumes L: "laws A W"
  shows "pos c node st en \<Longrightarrow> lens c s \<Longrightarrow> en < int (length arr) \<Longrightarrow>
         (\<And>k. insub node k \<Longrightarrow> k < int c \<Longrightarrow> \<not> hasPending s ! nat k) \<Longrightarrow>
         \<exists>s'. build A arr node st en s = ok s' \<and> frame node s s' \<and>
           hasPending s' = hasPending s \<and> pending s' = pending s \<and>
           consistent A W s' node st en \<and>
           (\<forall>x. st \<le> x \<and> x \<le> en \<longrightarrow> val A s' node st en x = Node_leaf A x (arr ! nat x))"
proof (induction "nat (en - st)" arbitrary: node st en s rule: less_induct)
  case less
  note P = less.prems(1) and len = less.prems(2) and arr = less.prems(3) and H = less.prems(4)
  from P have st: "0 \<le> st" "st \<le> en" by (auto simp: pos_def)
  from pos_node [OF P] have n: "1 \<le> node" "node < int c" by auto
  show ?case
  proof (cases "st = en")
    case True
    define s' where "s' = s\<lparr>tree := (tree s)[nat node := Node_leaf A st (arr ! nat st)]\<rparr>"
    have eq: "build A arr node st en s = ok s'"
      unfolding True [symmetric] s'_def using st n arr len True
      by (intro build_leaf) (auto simp: lens_def)
    have a: "tsize s' = tsize s" "tree s' = (tree s)[nat node := Node_leaf A st (arr ! nat st)]"
      "hasPending s' = (hasPending s)[nat node := hasPending s ! nat node]"
      "pending s' = (pending s)[nat node := pending s ! nat node]"
      by (simp_all add: s'_def)
    have n0: "0 \<le> node" using n by simp
    note pf = point_frame [OF a n0]
    have v: "val A s' node st en x = Node_leaf A st (arr ! nat st)" for x
      using True n len by (simp add: val_leaf s'_def lens_def)
    have "consistent A W s' node st en"
      using True n len by (simp add: consistent_leaf val_leaf)
    moreover have "\<forall>x. st \<le> x \<and> x \<le> en \<longrightarrow> val A s' node st en x = Node_leaf A x (arr ! nat x)"
    proof (intro allI impI)
      fix x assume "st \<le> x \<and> x \<le> en"
      with True have "x = st" by simp
      then show "val A s' node st en x = Node_leaf A x (arr ! nat x)" by (simp only: v)
    qed
    moreover have "hasPending s' = hasPending s" "pending s' = pending s" by (simp_all add: s'_def)
    ultimately show ?thesis using eq pf(1) by blast
  next
    case False
    with st have lt: "st < en" by simp
    from mid_bounds [OF st(1) lt] have m: "st \<le> mid st en" "mid st en < en" by auto
    note Pl = pos_children(1) [OF P lt] and Pr = pos_children(2) [OF P lt]
    have "nat (mid st en - st) < nat (en - st)" using m by simp
    from less.hyps [OF this Pl len] m arr H insub_left
    obtain s1 where s1: "build A arr (left node) st (mid st en) s = ok s1"
      and f1: "frame (left node) s s1" and h1: "hasPending s1 = hasPending s" "pending s1 = pending s"
      and C1l: "consistent A W s1 (left node) st (mid st en)"
      and v1l: "\<And>x. st \<le> x \<Longrightarrow> x \<le> mid st en \<Longrightarrow>
                  val A s1 (left node) st (mid st en) x = Node_leaf A x (arr ! nat x)"
      by force
    have len1: "lens c s1" using frame_lens [OF f1 len] .
    have "nat (en - (mid st en + 1)) < nat (en - st)" using m by simp
    from less.hyps [OF this Pr len1] m arr H insub_right h1
    obtain s2 where s2: "build A arr (right node) (mid st en + 1) en s1 = ok s2"
      and f2: "frame (right node) s1 s2" and h2: "hasPending s2 = hasPending s" "pending s2 = pending s"
      and C2r: "consistent A W s2 (right node) (mid st en + 1) en"
      and v2r: "\<And>x. mid st en + 1 \<le> x \<Longrightarrow> x \<le> en \<Longrightarrow>
                  val A s2 (right node) (mid st en + 1) en x = Node_leaf A x (arr ! nat x)"
      by force
    have len2: "lens c s2" using frame_lens [OF f2 len1] .
    have l2: "\<And>k. insub (left node) k \<Longrightarrow> same_at s1 s2 k"
      using frame_right_keeps_left [OF f2 n(1)] .
    have C2l: "consistent A W s2 (left node) st (mid st en)"
      using C1l consistent_cong [of "left node" s1 s2 A W st "mid st en"] l2 by blast
    have v2l: "val A s2 (left node) st (mid st en) x = val A s1 (left node) st (mid st en) x" for x
      by (rule val_cong) (rule l2)
    have hp2: "\<not> hasPending s2 ! nat node" using H [OF insub_self n(2)] h2 by simp
    from pull_correct [OF L P lt len2 hp2 C2l C2r]
    obtain s' where s': "pull A node s2 = ok s'" and f': "frame node s2 s'"
      and C': "consistent A W s' node st en"
      and h': "hasPending s' = hasPending s2" "pending s' = pending s2"
      and v': "\<And>x. val A s' node st en x =
                 (if x \<le> mid st en then val A s2 (left node) st (mid st en) x
                  else val A s2 (right node) (mid st en + 1) en x)"
      by blast
    have eq: "build A arr node st en s = ok s'"
      by (subst build_node [OF False]) (simp add: s1 s2 s')
    have fr: "frame node s s'"
      using frame_trans [OF frame_trans [OF frame_left [OF f1] frame_right [OF f2]] f'] .
    have v: "val A s' node st en x = Node_leaf A x (arr ! nat x)" if x: "st \<le> x" "x \<le> en" for x
    proof (cases "x \<le> mid st en")
      case True
      then show ?thesis using x by (simp add: v' v2l v1l)
    next
      case False
      then show ?thesis using x by (simp add: v' v2r)
    qed
    from eq fr C' v h' h2 show ?thesis by auto
  qed
qed

lemma SegTree_build_good:
  assumes L: "laws A W" and n: "1 \<le> n" "n \<le> int (length arr)" and small: "n < 536870912"
  shows "\<exists>s. SegTree_build A n arr = ok s \<and> good A W s \<and> tsize s = n \<and>
           hasPending s = replicate (nat (4 * n + 1)) False \<and>
           (\<forall>x. 0 \<le> x \<and> x < n \<longrightarrow> elem A s x = Node_leaf A x (arr ! nat x))"
proof -
  define s0 :: "('a, 'b) segtree" where "s0 = \<lparr>tsize = n,
               tree = replicate (nat (4 * n + 1)) (Node_default A),
               hasPending = replicate (nat (4 * n + 1)) False,
               pending = replicate (nat (4 * n + 1)) (Op_default A)\<rparr>"
  have i: "SegTree_init A n = ok s0" using n small by (simp add: SegTree_init_ok s0_def)
  have len: "lens (nat (4 * n + 1)) s0" by (simp add: lens_def s0_def)
  have P: "pos (nat (4 * n + 1)) 1 0 (n - 1)" using pos_root [OF n(1)] .
  have H: "\<not> hasPending s0 ! nat k" if "insub 1 k" "k < int (nat (4 * n + 1))" for k
  proof -
    have "0 \<le> k" using insub_nonneg [OF that(1)] by simp
    with that(2) n have "nat k < nat (4 * n + 1)" by simp
    then show ?thesis by (simp add: s0_def)
  qed
  have arr: "n - 1 < int (length arr)" using n by simp
  from build_correct [OF L P len arr H]
  obtain s where s: "build A arr 1 0 (n - 1) s0 = ok s" and f: "frame 1 s0 s"
    and h: "hasPending s = hasPending s0"
    and C: "consistent A W s 1 0 (n - 1)"
    and v: "\<And>x. 0 \<le> x \<Longrightarrow> x \<le> n - 1 \<Longrightarrow> val A s 1 0 (n - 1) x = Node_leaf A x (arr ! nat x)"
    by blast
  have ts: "tsize s = n" using f by (simp add: frame_def s0_def)
  have "SegTree_build A n arr = ok s"
    using s by (simp add: SegTree_build_def i build_top_def s0_def)
  moreover have "good A W s"
    using frame_lens [OF f len] C n by (simp add: good_def ts)
  moreover have "hasPending s = replicate (nat (4 * n + 1)) False" by (simp add: h s0_def)
  moreover have "\<forall>x. 0 \<le> x \<and> x < n \<longrightarrow> elem A s x = Node_leaf A x (arr ! nat x)"
    using v by (simp add: elem_def ts)
  ultimately show ?thesis using ts by blast
qed

lemma update_top_good:
  assumes L: "laws A W" and u: "W u" and G: "good A W s"
  shows "\<exists>s'. update_top A i j u s = ok s' \<and> good A W s' \<and> tsize s' = tsize s \<and>
           (\<forall>x. 0 \<le> x \<and> x < tsize s \<longrightarrow>
              elem A s' x = (if i \<le> x \<and> x \<le> j then op_apply A u (elem A s x) x x else elem A s x))"
proof -
  from G have n: "1 \<le> tsize s" and len: "lens (nat (4 * tsize s + 1)) s"
    and C: "consistent A W s 1 0 (tsize s - 1)" by (simp_all add: good_def)
  from update_correct [OF L u pos_root [OF n] len C, of i j]
  obtain s' where s': "update A 1 0 (tsize s - 1) i j u s = ok s'" and f: "frame 1 s s'"
    and C': "consistent A W s' 1 0 (tsize s - 1)"
    and v: "\<And>x. 0 \<le> x \<Longrightarrow> x \<le> tsize s - 1 \<Longrightarrow> val A s' 1 0 (tsize s - 1) x =
                (if i \<le> x \<and> x \<le> j then op_apply A u (val A s 1 0 (tsize s - 1) x) x x
                 else val A s 1 0 (tsize s - 1) x)"
    by blast
  have ts: "tsize s' = tsize s" using f by (simp add: frame_def)
  have "good A W s'" using frame_lens [OF f len] C' n by (simp add: good_def ts)
  moreover have "update_top A i j u s = ok s'" using s' by (simp add: update_top_def)
  moreover have "\<forall>x. 0 \<le> x \<and> x < tsize s \<longrightarrow>
              elem A s' x = (if i \<le> x \<and> x \<le> j then op_apply A u (elem A s x) x x else elem A s x)"
    using v by (simp add: elem_def ts)
  ultimately show ?thesis using ts by blast
qed

lemma MinMax_simps [simp]:
  "Node_default MinMax = Node_new" "Node_leaf MinMax = Node_of" "node_join MinMax = Node_join"
  "Op_default MinMax = Op_new" "op_apply MinMax = Op_apply" "op_merge MinMax = Op_merge"
  by (simp_all add: MinMax_def)

lemma MinMax_laws: "laws MinMax set_or_add"
  unfolding laws_def
  by (auto simp: Node_join_def Node_new_def Op_apply_def Op_merge_def set_or_add_def)

lemma MinMax_neutral: "neutral MinMax x \<longleftrightarrow> minVal x \<le> INF_int \<and> - INF_int \<le> maxVal x"
  by (cases x) (auto simp: neutral_def Node_join_def Node_new_def)

lemma decomp_outside: "j < st \<or> en < i \<Longrightarrow> decomp A f st en i j = Node_default A"
  by (subst decomp.simps) auto

lemma decomp_contained:
  "\<not> (j < st \<or> en < i) \<Longrightarrow> i \<le> st \<and> en \<le> j \<Longrightarrow> decomp A f st en i j = agg A f st en"
  by (subst decomp.simps) auto

lemma decomp_partial:
  "\<not> (j < st \<or> en < i) \<Longrightarrow> \<not> (i \<le> st \<and> en \<le> j) \<Longrightarrow> 0 \<le> st \<Longrightarrow> st < en \<Longrightarrow>
   decomp A f st en i j =
     node_join A (decomp A f st (mid st en) i j) (decomp A f (mid st en + 1) en i j)"
  by (subst decomp.simps) auto

lemma decomp_cong:
  "st \<le> en \<Longrightarrow> (\<And>x. st \<le> x \<Longrightarrow> x \<le> en \<Longrightarrow> f x = g x) \<Longrightarrow>
   decomp A f st en i j = decomp A g st en i j"
proof (induction A f st en i j rule: decomp.induct)
  case (1 A f st en i j)
  consider "j < st \<or> en < i" | "\<not> (j < st \<or> en < i)" "i \<le> st \<and> en \<le> j"
    | "\<not> (j < st \<or> en < i)" "\<not> (i \<le> st \<and> en \<le> j)" "0 \<le> st \<and> st < en"
    | "\<not> (j < st \<or> en < i)" "\<not> (i \<le> st \<and> en \<le> j)" "\<not> (0 \<le> st \<and> st < en)" by blast
  then show ?case
  proof cases
    case 1 then show ?thesis by (simp add: decomp_outside)
  next
    case 2
    have "agg A f st en = agg A g st en" using "1.prems" by (intro agg_cong) auto
    with 2 show ?thesis by (simp add: decomp_contained)
  next
    case 3
    then have st: "0 \<le> st" "st < en" by auto
    from mid_bounds [OF st] have m: "st \<le> mid st en" "mid st en < en" by auto
    have l: "decomp A f st (mid st en) i j = decomp A g st (mid st en) i j"
      using 3 m "1.prems" by (intro "1.IH"(1)) auto
    have r: "decomp A f (mid st en + 1) en i j = decomp A g (mid st en + 1) en i j"
      using 3 m "1.prems" by (intro "1.IH"(2)) auto
    show ?thesis using 3(1,2) st by (simp add: decomp_partial l r)
  next
    case 4
    then show ?thesis by (subst decomp.simps, subst (2) decomp.simps) auto
  qed
qed

lemma decomp_range_agg:
  "laws A W \<Longrightarrow> 0 \<le> st \<Longrightarrow> st \<le> en \<Longrightarrow>
   (\<And>x. max st i \<le> x \<Longrightarrow> x \<le> min en j \<Longrightarrow> neutral A (f x)) \<Longrightarrow>
   decomp A f st en i j = range_agg A f (max st i) (min en j)"
proof (induction A f st en i j rule: decomp.induct)
  case (1 A f st en i j)
  note L = "1.prems"(1) and st = "1.prems"(2,3) and N = "1.prems"(4)
  consider "j < st \<or> en < i" | "\<not> (j < st \<or> en < i)" "i \<le> st \<and> en \<le> j"
    | "\<not> (j < st \<or> en < i)" "\<not> (i \<le> st \<and> en \<le> j)" by blast
  then show ?case
  proof cases
    case 1
    with st have "min en j < max st i" by auto
    then show ?thesis using 1 by (simp add: decomp_outside range_agg_def)
  next
    case 2
    with st have "max st i = st" "min en j = en" by auto
    then show ?thesis using 2 st by (simp add: decomp_contained range_agg_def)
  next
    case 3
    with st have lt: "st < en" by linarith
    from mid_bounds [OF st(1) lt] have m: "st \<le> mid st en" "mid st en < en" by auto
    have l: "decomp A f st (mid st en) i j = range_agg A f (max st i) (min (mid st en) j)"
      using 3 st lt m N by (intro "1.IH"(1) L) auto
    have r: "decomp A f (mid st en + 1) en i j = range_agg A f (max (mid st en + 1) i) (min en j)"
      using 3 st lt m N by (intro "1.IH"(2) L) auto
    have l': "min (mid st en) j = min (mid st en) (min en j)" using m by (simp add: min_def)
    have r': "max (mid st en + 1) i = max (mid st en + 1) (max st i)" using m by (simp add: max_def)
    have "node_join A (range_agg A f (max st i) (min (mid st en) (min en j)))
            (range_agg A f (max (mid st en + 1) (max st i)) (min en j))
          = range_agg A f (max st i) (min en j)"
      using N by (intro range_agg_split [OF L]) auto
    then show ?thesis
      using 3 st(1) lt by (simp add: decomp_partial l r l' r')
  qed
qed

lemma query_correct:
  assumes L: "laws A W"
  shows "pos c node st en \<Longrightarrow> lens c s \<Longrightarrow> consistent A W s node st en \<Longrightarrow>
         \<exists>s' r. query A node st en i j s = ok (s', r) \<and> frame node s s' \<and>
           consistent A W s' node st en \<and>
           (\<forall>x. st \<le> x \<and> x \<le> en \<longrightarrow> val A s' node st en x = val A s node st en x) \<and>
           r = decomp A (val A s node st en) st en i j"
proof (induction "nat (en - st)" arbitrary: node st en s rule: less_induct)
  case less
  note P = less.prems(1) and len = less.prems(2) and C = less.prems(3)
  from P have st: "0 \<le> st" "st \<le> en" by (auto simp: pos_def)
  from pos_node [OF P] have n: "1 \<le> node" "node < int c" by auto
  consider "j < st \<or> en < i" | "i \<le> st \<and> en \<le> j" "\<not> (j < st \<or> en < i)"
    | "\<not> (j < st \<or> en < i)" "\<not> (i \<le> st \<and> en \<le> j)" by blast
  then show ?case
  proof cases
    case 1
    then have "query A node st en i j s = ok (s, Node_default A)" by (rule query_outside)
    moreover from 1 have "decomp A (val A s node st en) st en i j = Node_default A"
      by (rule decomp_outside)
    ultimately show ?thesis using C by auto
  next
    case 2
    have "query A node st en i j s = ok (s, tree s ! nat node)"
      using 2 n len by (intro query_contained) (auto simp: lens_def)
    moreover have "decomp A (val A s node st en) st en i j = tree s ! nat node"
      using 2 by (simp add: decomp_contained consistent_tree [OF C])
    ultimately show ?thesis using C by auto
  next
    case 3
    with st have lt: "st < en" by linarith
    from mid_bounds [OF st(1) lt] have m: "st \<le> mid st en" "mid st en < en" by auto
    note Pl = pos_children(1) [OF P lt] and Pr = pos_children(2) [OF P lt]
    from applyPending_correct [OF L P lt len C]
    obtain s1 where s1: "applyPending A node st en s = ok s1" and f1: "frame node s s1"
      and hp1: "\<not> hasPending s1 ! nat node" and t1: "tree s1 ! nat node = tree s ! nat node"
      and C1l: "consistent A W s1 (left node) st (mid st en)"
      and C1r: "consistent A W s1 (right node) (mid st en + 1) en"
      and v1l: "\<And>x. st \<le> x \<Longrightarrow> x \<le> mid st en \<Longrightarrow>
                  val A s1 (left node) st (mid st en) x = val A s node st en x"
      and v1r: "\<And>x. mid st en < x \<Longrightarrow> x \<le> en \<Longrightarrow>
                  val A s1 (right node) (mid st en + 1) en x = val A s node st en x"
      by blast
    have len1: "lens c s1" using frame_lens [OF f1 len] .
    have "nat (mid st en - st) < nat (en - st)" using m by simp
    from less.hyps [OF this Pl len1 C1l]
    obtain s2 p1 where s2: "query A (left node) st (mid st en) i j s1 = ok (s2, p1)"
      and f2: "frame (left node) s1 s2" and C2l: "consistent A W s2 (left node) st (mid st en)"
      and v2l: "\<And>x. st \<le> x \<Longrightarrow> x \<le> mid st en \<Longrightarrow>
               val A s2 (left node) st (mid st en) x = val A s1 (left node) st (mid st en) x"
      and r1: "p1 = decomp A (val A s1 (left node) st (mid st en)) st (mid st en) i j"
      by blast
    have len2: "lens c s2" using frame_lens [OF f2 len1] .
    have r2: "\<And>k. insub (right node) k \<Longrightarrow> same_at s1 s2 k"
      using frame_left_keeps_right [OF f2 n(1)] .
    have C2r: "consistent A W s2 (right node) (mid st en + 1) en"
      using C1r consistent_cong [of "right node" s1 s2 A W "mid st en + 1" en] r2 by blast
    have v2r: "val A s2 (right node) (mid st en + 1) en x = val A s1 (right node) (mid st en + 1) en x" for x
      by (rule val_cong) (rule r2)
    have self2: "same_at s1 s2 node" using frame_child_keeps_self(1) [OF n(1) f2] .
    have "nat (en - (mid st en + 1)) < nat (en - st)" using m by simp
    from less.hyps [OF this Pr len2 C2r]
    obtain s3 p2 where s3: "query A (right node) (mid st en + 1) en i j s2 = ok (s3, p2)"
      and f3: "frame (right node) s2 s3" and C3r: "consistent A W s3 (right node) (mid st en + 1) en"
      and v3r: "\<And>x. mid st en + 1 \<le> x \<Longrightarrow> x \<le> en \<Longrightarrow>
               val A s3 (right node) (mid st en + 1) en x = val A s2 (right node) (mid st en + 1) en x"
      and r2': "p2 = decomp A (val A s2 (right node) (mid st en + 1) en) (mid st en + 1) en i j"
      by blast
    have l3: "\<And>k. insub (left node) k \<Longrightarrow> same_at s2 s3 k"
      using frame_right_keeps_left [OF f3 n(1)] .
    have C3l: "consistent A W s3 (left node) st (mid st en)"
      using C2l consistent_cong [of "left node" s2 s3 A W st "mid st en"] l3 by blast
    have v3l: "val A s3 (left node) st (mid st en) x = val A s2 (left node) st (mid st en) x" for x
      by (rule val_cong) (rule l3)
    have self3: "same_at s2 s3 node" using frame_child_keeps_self(2) [OF n(1) f3] .
    have hp3: "\<not> hasPending s3 ! nat node" and t3: "tree s3 ! nat node = tree s ! nat node"
      using hp1 t1 self2 self3 by (simp_all add: same_at_def)
    have eq: "query A node st en i j s = ok (s3, node_join A p1 p2)"
      by (subst query_partial [OF 3]) (simp add: s1 s2 s3)
    have fr: "frame node s s3"
      using frame_trans [OF frame_trans [OF f1 frame_left [OF f2]] frame_right [OF f3]] .
    have v: "val A s3 node st en x = val A s node st en x" if x: "st \<le> x" "x \<le> en" for x
    proof (cases "x \<le> mid st en")
      case True
      then show ?thesis
        using x st lt hp3 by (simp add: val_node [of st en A s3] pend_apply_def v3l v2l v1l)
    next
      case False
      then show ?thesis
        using x st lt hp3 by (simp add: val_node [of st en A s3] pend_apply_def v3r v2r v1r)
    qed
    have C3: "consistent A W s3 node st en"
      using st(1) lt hp3 t3 C C3l C3r v by (rule consistent_after_push)
    have res: "node_join A p1 p2 = decomp A (val A s node st en) st en i j"
    proof -
      let ?f = "val A s node st en"
      have "p1 = decomp A ?f st (mid st en) i j"
        unfolding r1 using m by (intro decomp_cong) (auto simp: v1l)
      moreover have "p2 = decomp A ?f (mid st en + 1) en i j"
        unfolding r2' using m by (intro decomp_cong) (auto simp: v2r v1r)
      ultimately show ?thesis
        using 3 st(1) lt by (simp add: decomp_partial)
    qed
    from eq fr C3 v res show ?thesis by blast
  qed
qed

lemma query_top_good:
  assumes L: "laws A W" and G: "good A W s"
  shows "\<exists>s' r. query_top A i j s = ok (s', r) \<and> good A W s' \<and> tsize s' = tsize s \<and>
           (\<forall>x. 0 \<le> x \<and> x < tsize s \<longrightarrow> elem A s' x = elem A s x) \<and>
           r = decomp A (elem A s) 0 (tsize s - 1) i j"
proof -
  from G have n: "1 \<le> tsize s" and len: "lens (nat (4 * tsize s + 1)) s"
    and C: "consistent A W s 1 0 (tsize s - 1)" by (simp_all add: good_def)
  from query_correct [OF L pos_root [OF n] len C, of i j]
  obtain s' r where s': "query A 1 0 (tsize s - 1) i j s = ok (s', r)" and f: "frame 1 s s'"
    and C': "consistent A W s' 1 0 (tsize s - 1)"
    and v: "\<And>x. 0 \<le> x \<Longrightarrow> x \<le> tsize s - 1 \<Longrightarrow>
              val A s' 1 0 (tsize s - 1) x = val A s 1 0 (tsize s - 1) x"
    and r: "r = decomp A (val A s 1 0 (tsize s - 1)) 0 (tsize s - 1) i j"
    by blast
  have ts: "tsize s' = tsize s" using f by (simp add: frame_def)
  have e: "elem A s = val A s 1 0 (tsize s - 1)" by (rule ext) (simp add: elem_def)
  have "good A W s'" using frame_lens [OF f len] C' n by (simp add: good_def ts)
  moreover have "query_top A i j s = ok (s', r)" using s' by (simp add: query_top_def)
  moreover have "\<forall>x. 0 \<le> x \<and> x < tsize s \<longrightarrow> elem A s' x = elem A s x"
    using v by (simp add: elem_def ts)
  moreover have "r = decomp A (elem A s) 0 (tsize s - 1) i j"
    using r unfolding e .
  ultimately show ?thesis using ts by blast
qed

text \<open>
  Every call of \<open>build\<close> on a non-empty range returns, whatever the vectors are. A call
  that returns normally has written the leftmost leaf below its position, so the
  constructor returns normally only if the size \<open>4 * n + 1\<close> has not wrapped around.
\<close>

lemma bnd_ok_iff: "bnd m f = ok y \<longleftrightarrow> (\<exists>x. m = ok x \<and> f x = ok y)"
  by (cases m) (auto simp: bnd_def ok_def split: sum.splits)

lemma bnd_Some: "(\<exists>r. m = Some r) \<Longrightarrow> (\<And>x. \<exists>r. f x = Some r) \<Longrightarrow> \<exists>r. bnd m f = Some r"
  by (auto simp: bnd_def split: sum.splits)

lemma vget_Some: "\<exists>r. vget xs k = Some r"
  by (simp add: vget_def ok_def fail_def)

lemma vset_Some: "\<exists>r. vset xs k v = Some r"
  by (simp add: vset_def ok_def fail_def)

lemma set_tree_Some: "\<exists>r. set_tree k v s = Some r"
  unfolding set_tree_def by (intro bnd_Some vset_Some) (simp add: ok_def)

lemma pull_Some: "\<exists>r. pull A node s = Some r"
  unfolding pull_def by (intro bnd_Some vget_Some set_tree_Some)

lemma build_Some:
  "0 \<le> st \<Longrightarrow> st \<le> en \<Longrightarrow> \<exists>r. build A arr node st en s = Some r"
proof (induction "nat (en - st)" arbitrary: node st en s rule: less_induct)
  case less
  note st = less.prems
  show ?case
  proof (cases "st = en")
    case True
    have "\<exists>r. bnd (vget arr st) (\<lambda>v. set_tree node (Node_leaf A st v) s) = Some r"
      by (intro bnd_Some vget_Some set_tree_Some)
    with True show ?thesis by (subst build.simps) simp
  next
    case False
    with st have lt: "st < en" by simp
    from mid_bounds [OF st(1) lt] have m: "st \<le> mid st en" "mid st en < en" by auto
    have 1: "\<exists>r. build A arr (left node) st (mid st en) s = Some r" for s
      using m st by (intro less.hyps) auto
    have 2: "\<exists>r. build A arr (right node) (mid st en + 1) en s = Some r" for s
      using m st by (intro less.hyps) auto
    have "\<exists>r. bnd (build A arr (left node) st (mid st en) s) (\<lambda>s1.
        bnd (build A arr (right node) (mid st en + 1) en s1) (\<lambda>s2.
        pull A node s2)) = Some r"
      by (intro bnd_Some 1 2 pull_Some)
    then show ?thesis by (simp add: build_node [OF False])
  qed
qed

lemma SegTree_build_Some: "1 \<le> n \<Longrightarrow> \<exists>r. SegTree_build A n arr = Some r"
proof -
  assume n: "1 \<le> n"
  have "\<exists>r. SegTree_init A n = Some r" by (simp add: SegTree_init_def ok_def fail_def)
  moreover have "\<exists>r. build_top A arr s = Some r" if "tsize s = n" for s :: "('a, 'b) segtree"
    unfolding build_top_def using n that by (intro build_Some) auto
  ultimately show ?thesis
    unfolding SegTree_build_def
    by (auto simp: SegTree_init_def bnd_def ok_def fail_def split: sum.splits if_splits)
qed

lemma set_tree_ok_iff: "set_tree k v s = ok s' \<Longrightarrow> 0 \<le> k \<and> k < int (length (tree s))"
  by (auto simp: set_tree_def vset_def bnd_ok_iff split: if_splits)

lemma build_reaches_leaf:
  assumes "build A arr node st en s = ok s'" "0 \<le> st" "st \<le> en" "1 \<le> node"
    and "2 ^ h < 2 * (en - st + 1)"
  shows "node * 2 ^ h < int (length (tree s))"
  using assms
proof (induction "nat (en - st)" arbitrary: node st en h s' rule: less_induct)
  case less
  note b = less.prems(1) and st = less.prems(2,3) and n = less.prems(4) and h = less.prems(5)
  show ?case
  proof (cases "st = en")
    case True
    with h have "(2::int) ^ h < 2" by simp
    have h0: "h = 0"
    proof (cases h)
      case (Suc k)
      have "(1::int) \<le> 2 ^ k" by simp
      with Suc \<open>(2::int) ^ h < 2\<close> show ?thesis by simp
    qed
    from b True have "bnd (vget arr st) (\<lambda>v. set_tree node (Node_leaf A st v) s) = ok s'"
      by (subst (asm) build.simps) simp
    then obtain v where "set_tree node (Node_leaf A st v) s = ok s'"
      by (auto simp: bnd_ok_iff)
    from set_tree_ok_iff [OF this] h0 show ?thesis by simp
  next
    case False
    with st have lt: "st < en" by simp
    from mid_bounds [OF st(1) lt] have m: "st \<le> mid st en" "mid st en < en" by auto
    have me: "mid st en = (st + en) div 2" using st by (simp add: mid_nonneg)
    from b obtain s1 where s1: "build A arr (left node) st (mid st en) s = ok s1"
      by (auto simp: build_node [OF False] bnd_ok_iff)
    have d: "nat (mid st en - st) < nat (en - st)" using m by simp
    have ln: "1 \<le> left node" using n by (simp add: left_def)
    show ?thesis
    proof (cases h)
      case 0
      have "(2::int) ^ 0 < 2 * (mid st en - st + 1)" using m by simp
      from less.hyps [OF d s1 st(1) m(1) ln this]
      show ?thesis using n 0 by (simp add: left_def)
    next
      case (Suc k)
      with h have "(2::int) ^ k < en - st + 1" by simp
      moreover have "en - st + 1 \<le> 2 * (mid st en - st + 1)"
      proof -
        define d r where "d = (st + en) div 2" and "r = (st + en) mod 2"
        have "st + en = 2 * d + r" "r < 2" by (simp_all add: d_def r_def)
        then have "en - st + 1 \<le> 2 * (d - st + 1)" by presburger
        then show ?thesis unfolding me d_def .
      qed
      ultimately have "(2::int) ^ k < 2 * (mid st en - st + 1)" by linarith
      from less.hyps [OF d s1 st(1) m(1) ln this]
      show ?thesis using Suc by (simp add: left_def mult.assoc)
    qed
  qed
qed

lemma SegTree_build_small:
  assumes b: "SegTree_build A n arr = ok s" and n: "1 \<le> n"
  shows "n < 536870912"
proof (rule ccontr)
  assume "\<not> n < 536870912"
  then have big: "536870912 \<le> n" by simp
  define c where "c = int32 (4 * n + 1)"
  from b have c0: "0 \<le> c"
    by (auto simp: SegTree_build_def SegTree_init_def c_def split: if_splits)
  have c1: "c < 2147483648" unfolding c_def by (rule int32_range)
  define s0 :: "('a, 'b) segtree" where "s0 = \<lparr>tsize = n,
               tree = replicate (nat c) (Node_default A),
               hasPending = replicate (nat c) False,
               pending = replicate (nat c) (Op_default A)\<rparr>"
  from b c0 have bs: "build A arr 1 0 (n - 1) s0 = ok s"
    by (simp add: SegTree_build_def SegTree_init_def c_def [symmetric] s0_def build_top_def)
  have reach: "2 ^ h < c" if "(2::int) ^ h < 2 * n" for h
    using build_reaches_leaf [OF bs, of h] that n c0 by (simp add: s0_def)
  consider "n < 1073741824" | "n = 1073741824" | "1073741824 < n" by linarith
  then show False
  proof cases
    case 1
    have e: "4 * n + 1 = (4 * n + 1 - 4294967296) + 4294967296" by simp
    have "c = int32 (4 * n + 1 - 4294967296)"
      unfolding c_def by (subst e) (rule int32_shift)
    also have "\<dots> = 4 * n + 1 - 4294967296" using 1 big by (intro int32_id) simp_all
    finally have "c < 0" using 1 by simp
    with c0 show False by simp
  next
    case 2
    have "c = 1" unfolding c_def 2 by (simp add: int32_def)
    moreover have "(2::int) ^ 30 < c" using 2 by (intro reach) simp
    ultimately show False by simp
  next
    case 3
    have "(2::int) ^ 31 < c" using 3 by (intro reach) simp
    with c1 show False by simp
  qed
qed

lemma build_leftmost_fail:
  "0 \<le> en \<Longrightarrow> en < int (length arr) \<Longrightarrow> 0 \<le> node \<Longrightarrow> int (length (tree s)) \<le> node \<Longrightarrow>
   build A arr node 0 en s = fail OutOfBounds"
proof (induction "nat en" arbitrary: node en rule: less_induct)
  case less
  show ?case
  proof (cases "en = 0")
    case True
    with less.prems show ?thesis
      by (subst build.simps) (simp add: vget_ok set_tree_def vset_def)
  next
    case False
    with less.prems have lt: "0 < en" by simp
    from mid_bounds [OF _ lt] have m: "0 \<le> mid 0 en" "mid 0 en < en" by auto
    have "build A arr (left node) 0 (mid 0 en) s = fail OutOfBounds"
      using m less.prems by (intro less.hyps) (auto simp: left_def)
    then show ?thesis using False by (subst build.simps) simp
  qed
qed

lemma reachable_good:
  assumes L: "laws A W"
  shows "reachable A W s \<Longrightarrow> good A W s"
proof (induction rule: reachable.induct)
  case (built n arr s)
  from SegTree_build_small [OF built(3,1)] have "n < 536870912" .
  from SegTree_build_good [OF L built(1,2) this] built(3) show ?case by auto
next
  case (updated s u i j s')
  with update_top_good [OF L updated(2) updated.IH, of i j] show ?case by auto
next
  case (queried s i j s' r)
  with query_top_good [OF L queried.IH, of i j] show ?case by auto
qed

lemma update_full_ok:
  assumes P: "pos c node st en" and len: "lens c s" and I: "i \<le> st" "en \<le> j"
  shows "\<exists>s'. update A node st en i j u s = ok s' \<and> lens c s' \<and> tsize s' = tsize s"
proof -
  from pos_node [OF P] have n: "1 \<le> node" "node < int c" by auto
  from P have st: "0 \<le> st" "st \<le> en" by (auto simp: pos_def)
  show ?thesis
  proof (cases "st = en")
    case True
    have "update A node st st i j u s
          = ok (s\<lparr>tree := (tree s)[nat node := op_apply A u (tree s ! nat node) st st]\<rparr>)"
      using I n len True by (intro update_leaf_eq) (auto simp: lens_def)
    with len True show ?thesis by (simp add: lens_def)
  next
    case False
    with st have lt: "st < en" by simp
    from update_contained_eq [OF lt I _ n(2) len, of A u] n len
    show ?thesis by (simp add: lens_def)
  qed
qed

lemma applyPending_ok:
  assumes P: "pos c node st en" and lt: "st < en" and len: "lens c s"
  shows "\<exists>s1. applyPending A node st en s = ok s1 \<and> lens c s1 \<and> tsize s1 = tsize s"
proof -
  from pos_node [OF P] have n: "1 \<le> node" "node < int c" by auto
  from P have st: "0 \<le> st" by (auto simp: pos_def)
  from mid_bounds [OF st lt] have m: "st \<le> mid st en" "mid st en < en" by auto
  have b: "0 \<le> node" "node < int (length (hasPending s))" "node < int (length (pending s))"
    using n len by (simp_all add: lens_def)
  show ?thesis
  proof (cases "hasPending s ! nat node")
    case False
    then have "applyPending A node st en s = ok s" using b by (simp add: applyPending_def vget_ok)
    with len show ?thesis by simp
  next
    case True
    from update_full_ok [OF pos_children(1) [OF P lt] len, of st en A "pending s ! nat node"] m
    obtain sa where sa: "update A (left node) st (mid st en) st en (pending s ! nat node) s = ok sa"
      and lena: "lens c sa" and ta: "tsize sa = tsize s" by auto
    have ba: "node < int (length (pending sa))" using n lena by (simp add: lens_def)
    from update_full_ok [OF pos_children(2) [OF P lt] lena, of st en A "pending sa ! nat node"] m
    obtain sb where sb: "update A (right node) (mid st en + 1) en st en (pending sa ! nat node) sa = ok sb"
      and lenb: "lens c sb" and tb: "tsize sb = tsize sa" by auto
    have bb: "node < int (length (hasPending sb))" using n lenb by (simp add: lens_def)
    have "applyPending A node st en s = ok (sb\<lparr>hasPending := (hasPending sb)[nat node := False]\<rparr>)"
      using True b ba bb sa sb by (simp add: applyPending_def vget_ok set_hasPending_ok)
    with lenb ta tb show ?thesis by (simp add: lens_def)
  qed
qed

lemma pull_ok:
  assumes P: "pos c node st en" and lt: "st < en" and len: "lens c s"
  shows "\<exists>s'. pull A node s = ok s' \<and> lens c s' \<and> tsize s' = tsize s"
proof -
  from pos_node [OF P] have n: "1 \<le> node" "node < int c" by auto
  from pos_node [OF pos_children(1) [OF P lt]] have nl: "1 \<le> left node" "left node < int c" by auto
  from pos_node [OF pos_children(2) [OF P lt]] have nr: "1 \<le> right node" "right node < int c" by auto
  have "pull A node s = ok (s\<lparr>tree := (tree s)[nat node :=
          node_join A (tree s ! nat (left node)) (tree s ! nat (right node))]\<rparr>)"
    using n nl nr len by (simp add: pull_def vget_ok set_tree_ok lens_def)
  with len show ?thesis by (simp add: lens_def)
qed

lemma update_ok:
  "pos c node st en \<Longrightarrow> lens c s \<Longrightarrow>
   \<exists>s'. update A node st en i j u s = ok s' \<and> lens c s' \<and> tsize s' = tsize s"
proof (induction "nat (en - st)" arbitrary: node st en s rule: less_induct)
  case less
  note P = less.prems(1) and len = less.prems(2)
  from P have st: "0 \<le> st" "st \<le> en" by (auto simp: pos_def)
  consider "j < st \<or> en < i" | "i \<le> st \<and> en \<le> j" "\<not> (j < st \<or> en < i)"
    | "\<not> (j < st \<or> en < i)" "\<not> (i \<le> st \<and> en \<le> j)" by blast
  then show ?case
  proof cases
    case 1
    then have "update A node st en i j u s = ok s" by (rule update_outside)
    with len show ?thesis by simp
  next
    case 2
    with update_full_ok [OF P len, of i j A u] show ?thesis by simp
  next
    case 3
    with st have lt: "st < en" by linarith
    from mid_bounds [OF st(1) lt] have m: "st \<le> mid st en" "mid st en < en" by auto
    from applyPending_ok [OF P lt len, of A]
    obtain s1 where s1: "applyPending A node st en s = ok s1" and len1: "lens c s1"
      and t1: "tsize s1 = tsize s" by blast
    have "\<exists>s2. (if i \<le> mid st en then update A (left node) st (mid st en) i j u s1 else ok s1) = ok s2 \<and>
            lens c s2 \<and> tsize s2 = tsize s1"
    proof (cases "i \<le> mid st en")
      case True
      have "nat (mid st en - st) < nat (en - st)" using m by simp
      from less.hyps [OF this pos_children(1) [OF P lt] len1] True show ?thesis by simp
    next
      case False
      then show ?thesis using len1 by simp
    qed
    then obtain s2 where s2: "(if i \<le> mid st en then update A (left node) st (mid st en) i j u s1 else ok s1) = ok s2"
      and len2: "lens c s2" and t2: "tsize s2 = tsize s1" by blast
    have "\<exists>s3. (if j > mid st en then update A (right node) (mid st en + 1) en i j u s2 else ok s2) = ok s3 \<and>
            lens c s3 \<and> tsize s3 = tsize s2"
    proof (cases "j > mid st en")
      case True
      have "nat (en - (mid st en + 1)) < nat (en - st)" using m by simp
      from less.hyps [OF this pos_children(2) [OF P lt] len2] True show ?thesis by simp
    next
      case False
      then show ?thesis using len2 by simp
    qed
    then obtain s3 where s3: "(if j > mid st en then update A (right node) (mid st en + 1) en i j u s2 else ok s2) = ok s3"
      and len3: "lens c s3" and t3: "tsize s3 = tsize s2" by blast
    from pull_ok [OF P lt len3, of A]
    obtain s' where s': "pull A node s3 = ok s'" and len': "lens c s'" and t': "tsize s' = tsize s3"
      by blast
    have "st \<noteq> en" using lt by simp
    then have "update A node st en i j u s = ok s'"
      by (subst update_partial [OF 3(1) _ 3(2)]) (simp_all add: s1 s2 s3 s')
    with len' t' t3 t2 t1 show ?thesis by simp
  qed
qed

lemma query_ok:
  "pos c node st en \<Longrightarrow> lens c s \<Longrightarrow>
   \<exists>s' r. query A node st en i j s = ok (s', r) \<and> lens c s' \<and> tsize s' = tsize s"
proof (induction "nat (en - st)" arbitrary: node st en s rule: less_induct)
  case less
  note P = less.prems(1) and len = less.prems(2)
  from P have st: "0 \<le> st" "st \<le> en" by (auto simp: pos_def)
  from pos_node [OF P] have n: "1 \<le> node" "node < int c" by auto
  consider "j < st \<or> en < i" | "i \<le> st \<and> en \<le> j" "\<not> (j < st \<or> en < i)"
    | "\<not> (j < st \<or> en < i)" "\<not> (i \<le> st \<and> en \<le> j)" by blast
  then show ?case
  proof cases
    case 1
    then have "query A node st en i j s = ok (s, Node_default A)" by (rule query_outside)
    with len show ?thesis by simp
  next
    case 2
    have "query A node st en i j s = ok (s, tree s ! nat node)"
      using 2 n len by (intro query_contained) (auto simp: lens_def)
    with len show ?thesis by simp
  next
    case 3
    with st have lt: "st < en" by linarith
    from mid_bounds [OF st(1) lt] have m: "st \<le> mid st en" "mid st en < en" by auto
    from applyPending_ok [OF P lt len, of A]
    obtain s1 where s1: "applyPending A node st en s = ok s1" and len1: "lens c s1"
      and t1: "tsize s1 = tsize s" by blast
    have "nat (mid st en - st) < nat (en - st)" using m by simp
    from less.hyps [OF this pos_children(1) [OF P lt] len1]
    obtain s2 p1 where s2: "query A (left node) st (mid st en) i j s1 = ok (s2, p1)"
      and len2: "lens c s2" and t2: "tsize s2 = tsize s1" by blast
    have "nat (en - (mid st en + 1)) < nat (en - st)" using m by simp
    from less.hyps [OF this pos_children(2) [OF P lt] len2]
    obtain s3 p2 where s3: "query A (right node) (mid st en + 1) en i j s2 = ok (s3, p2)"
      and len3: "lens c s3" and t3: "tsize s3 = tsize s2" by blast
    have "query A node st en i j s = ok (s3, node_join A p1 p2)"
      by (subst query_partial [OF 3]) (simp add: s1 s2 s3)
    with len3 t3 t2 t1 show ?thesis by simp
  qed
qed

lemma build_ok:
  "pos c node st en \<Longrightarrow> lens c s \<Longrightarrow> en < int (length arr) \<Longrightarrow>
   \<exists>s'. build A arr node st en s = ok s' \<and> lens c s' \<and> tsize s' = tsize s"
proof (induction "nat (en - st)" arbitrary: node st en s rule: less_induct)
  case less
  note P = less.prems(1) and len = less.prems(2) and arr = less.prems(3)
  from P have st: "0 \<le> st" "st \<le> en" by (auto simp: pos_def)
  from pos_node [OF P] have n: "1 \<le> node" "node < int c" by auto
  show ?case
  proof (cases "st = en")
    case True
    have "build A arr node st st s = ok (s\<lparr>tree := (tree s)[nat node := Node_leaf A st (arr ! nat st)]\<rparr>)"
      using st n arr len True by (intro build_leaf) (auto simp: lens_def)
    with len True show ?thesis by (simp add: lens_def)
  next
    case False
    with st have lt: "st < en" by simp
    from mid_bounds [OF st(1) lt] have m: "st \<le> mid st en" "mid st en < en" by auto
    have "nat (mid st en - st) < nat (en - st)" using m by simp
    from less.hyps [OF this pos_children(1) [OF P lt] len] m arr
    obtain s1 where s1: "build A arr (left node) st (mid st en) s = ok s1"
      and len1: "lens c s1" and t1: "tsize s1 = tsize s" by force
    have "nat (en - (mid st en + 1)) < nat (en - st)" using m by simp
    from less.hyps [OF this pos_children(2) [OF P lt] len1] arr
    obtain s2 where s2: "build A arr (right node) (mid st en + 1) en s1 = ok s2"
      and len2: "lens c s2" and t2: "tsize s2 = tsize s1" by force
    from pull_ok [OF P lt len2, of A]
    obtain s' where s': "pull A node s2 = ok s'" and len': "lens c s'" and t': "tsize s' = tsize s2"
      by blast
    have "build A arr node st en s = ok s'"
      by (subst build_node [OF False]) (simp add: s1 s2 s')
    with len' t' t2 t1 show ?thesis by simp
  qed
qed

lemma half_len:
  assumes "0 \<le> st" "st < en" "en - st + 1 \<le> 2 ^ Suc h"
  shows "mid st en - st + 1 \<le> 2 ^ h" "en - (mid st en + 1) + 1 \<le> 2 ^ h"
proof -
  have m: "mid st en = (st + en) div 2" using assms by (simp add: mid_nonneg)
  show "mid st en - st + 1 \<le> 2 ^ h" using assms(3) unfolding m by (simp, linarith?)
  show "en - (mid st en + 1) + 1 \<le> 2 ^ h" using assms(3) unfolding m by (simp, linarith?)
qed

lemma T_update_one:
  "j < st \<or> en < i \<or> st = en \<or> (i \<le> st \<and> en \<le> j) \<Longrightarrow> T_update st en i j = Some 1"
  by (subst T_update.simps) auto

lemma T_applyPending_eq:
  assumes "0 \<le> st" "st < en"
  shows "T_applyPending st en = Some 3"
proof -
  from mid_bounds [OF assms] have m: "st \<le> mid st en" "mid st en < en" by auto
  have "T_update st (mid st en) st en = Some 1" using m by (intro T_update_one) auto
  moreover have "T_update (mid st en + 1) en st en = Some 1" using m by (intro T_update_one) auto
  ultimately show ?thesis by (simp add: T_applyPending_def)
qed

lemma T_query_one:
  "j < st \<or> en < i \<or> (i \<le> st \<and> en \<le> j) \<Longrightarrow> T_query st en i j = Some 1"
  by (subst T_query.simps) auto

lemma T_query_partial:
  assumes "\<not> (j < st \<or> en < i)" "\<not> (i \<le> st \<and> en \<le> j)" "0 \<le> st" "st < en"
    and "T_query st (mid st en) i j = Some l" "T_query (mid st en + 1) en i j = Some r"
  shows "T_query st en i j = Some (4 + l + r)"
  using assms(1,2) by (subst T_query.simps) (auto simp: T_applyPending_eq [OF assms(3,4)] assms(5,6))

lemma T_update_partial:
  assumes "\<not> (j < st \<or> en < i)" "\<not> (i \<le> st \<and> en \<le> j)" "0 \<le> st" "st < en"
    and "(if i \<le> mid st en then T_update st (mid st en) i j else Some 0) = Some l"
    and "(if j > mid st en then T_update (mid st en + 1) en i j else Some 0) = Some r"
  shows "T_update st en i j = Some (4 + l + r)"
proof -
  have "st \<noteq> en" using assms(4) by simp
  moreover have "Option.bind (T_update st (mid st en) st en) (\<lambda>a.
                     Option.bind (T_update (mid st en + 1) en st en) (\<lambda>b. Some (1 + a + b))) = Some 3"
    using T_applyPending_eq [OF assms(3,4)] by (simp add: T_applyPending_def)
  ultimately show ?thesis
    using assms(1,2) by (subst T_update.simps) (simp add: assms(5,6) del: if_split)
qed

lemma T_query_side:
  "0 \<le> st \<Longrightarrow> st \<le> en \<Longrightarrow> en - st + 1 \<le> 2 ^ h \<Longrightarrow> i \<le> st \<or> en \<le> j \<Longrightarrow>
   \<exists>t. T_query st en i j = Some t \<and> t \<le> 5 * h + 1"
proof (induction h arbitrary: st en)
  case 0
  then have "st = en" by simp
  with 0(4) have "j < st \<or> en < i \<or> (i \<le> st \<and> en \<le> j)" by auto
  then show ?case by (simp add: T_query_one)
next
  case (Suc h)
  consider "j < st \<or> en < i \<or> (i \<le> st \<and> en \<le> j)"
    | "\<not> (j < st \<or> en < i)" "\<not> (i \<le> st \<and> en \<le> j)" by blast
  then show ?case
  proof cases
    case 1 then show ?thesis by (simp add: T_query_one)
  next
    case 2
    with Suc.prems have lt: "st < en" by linarith
    from mid_bounds [OF Suc.prems(1) lt] have m: "st \<le> mid st en" "mid st en < en" by auto
    note hl = half_len [OF Suc.prems(1) lt Suc.prems(3)]
    have side_l: "i \<le> st \<or> mid st en \<le> j" using Suc.prems(4) m by auto
    have side_r: "i \<le> mid st en + 1 \<or> en \<le> j" using Suc.prems(4) m by auto
    from Suc.IH [OF Suc.prems(1) m(1) hl(1) side_l]
    obtain l where l: "T_query st (mid st en) i j = Some l" "l \<le> 5 * h + 1" by blast
    from Suc.IH [OF _ _ hl(2) side_r] Suc.prems(1) m
    obtain r where r: "T_query (mid st en + 1) en i j = Some r" "r \<le> 5 * h + 1" by auto
    have one: "l = 1 \<or> r = 1"
    proof (cases "i \<le> st")
      case True
      show ?thesis
      proof (cases "j \<le> mid st en")
        case True
        then have "T_query (mid st en + 1) en i j = Some 1" by (intro T_query_one) auto
        with r show ?thesis by simp
      next
        case False
        with \<open>i \<le> st\<close> have "T_query st (mid st en) i j = Some 1" by (intro T_query_one) auto
        with l show ?thesis by simp
      qed
    next
      case False
      with Suc.prems(4) have ej: "en \<le> j" by simp
      show ?thesis
      proof (cases "i \<le> mid st en + 1")
        case True
        with ej have "T_query (mid st en + 1) en i j = Some 1" by (intro T_query_one) auto
        with r show ?thesis by simp
      next
        case False
        then have "T_query st (mid st en) i j = Some 1" by (intro T_query_one) auto
        with l show ?thesis by simp
      qed
    qed
    have "T_query st en i j = Some (4 + l + r)"
      using T_query_partial [OF 2 Suc.prems(1) lt l(1) r(1)] .
    moreover have "4 + l + r \<le> 5 * Suc h + 1" using one l(2) r(2) by auto
    ultimately show ?thesis by blast
  qed
qed

lemma T_query_bound:
  "0 \<le> st \<Longrightarrow> st \<le> en \<Longrightarrow> en - st + 1 \<le> 2 ^ h \<Longrightarrow>
   \<exists>t. T_query st en i j = Some t \<and> t \<le> 10 * h + 1"
proof (induction h arbitrary: st en)
  case 0
  from T_query_side [OF 0, of i j] show ?case
    using 0 by (cases "i \<le> st \<or> en \<le> j") (auto simp: T_query_one)
next
  case (Suc h)
  consider "j < st \<or> en < i \<or> (i \<le> st \<and> en \<le> j)"
    | "\<not> (j < st \<or> en < i)" "\<not> (i \<le> st \<and> en \<le> j)" by blast
  then show ?case
  proof cases
    case 1 then show ?thesis by (simp add: T_query_one)
  next
    case 2
    with Suc.prems have lt: "st < en" by linarith
    from mid_bounds [OF Suc.prems(1) lt] have m: "st \<le> mid st en" "mid st en < en" by auto
    note hl = half_len [OF Suc.prems(1) lt Suc.prems(3)]
    have st': "0 \<le> mid st en + 1" "mid st en + 1 \<le> en" using Suc.prems(1) m by auto
    consider "j \<le> mid st en" | "mid st en < i" | "i \<le> mid st en" "mid st en < j" by linarith
    then obtain l r where lr: "T_query st (mid st en) i j = Some l"
      "T_query (mid st en + 1) en i j = Some r" "l + r \<le> 10 * h + 2"
    proof cases
      case 1
      then have r: "T_query (mid st en + 1) en i j = Some 1" by (intro T_query_one) auto
      from Suc.IH [OF Suc.prems(1) m(1) hl(1)]
      obtain l where "T_query st (mid st en) i j = Some l" "l \<le> 10 * h + 1" by blast
      with r that show ?thesis by auto
    next
      case 2
      then have l: "T_query st (mid st en) i j = Some 1" by (intro T_query_one) auto
      from Suc.IH [OF st' hl(2)]
      obtain r where "T_query (mid st en + 1) en i j = Some r" "r \<le> 10 * h + 1" by blast
      with l that show ?thesis by auto
    next
      case 3
      from T_query_side [OF Suc.prems(1) m(1) hl(1), of i j] 3
      obtain l where l: "T_query st (mid st en) i j = Some l" "l \<le> 5 * h + 1" by auto
      from T_query_side [OF st' hl(2), of i j] 3
      obtain r where r: "T_query (mid st en + 1) en i j = Some r" "r \<le> 5 * h + 1" by auto
      from l r that show ?thesis by auto
    qed
    have "T_query st en i j = Some (4 + l + r)"
      using T_query_partial [OF 2 Suc.prems(1) lt lr(1,2)] .
    moreover have "4 + l + r \<le> 10 * Suc h + 1" using lr(3) by simp
    ultimately show ?thesis by blast
  qed
qed

lemma T_update_le_query:
  "0 \<le> st \<Longrightarrow> st \<le> en \<Longrightarrow> T_query st en i j = Some q \<Longrightarrow>
   \<exists>t. T_update st en i j = Some t \<and> t \<le> q"
proof (induction "nat (en - st)" arbitrary: st en q rule: less_induct)
  case less
  note st = less.prems(1,2) and q = less.prems(3)
  consider "j < st \<or> en < i \<or> (i \<le> st \<and> en \<le> j)"
    | "\<not> (j < st \<or> en < i)" "\<not> (i \<le> st \<and> en \<le> j)" by blast
  then show ?case
  proof cases
    case 1
    then have "T_query st en i j = Some 1" by (intro T_query_one) auto
    moreover from 1 have "T_update st en i j = Some 1" by (intro T_update_one) auto
    ultimately show ?thesis using q by simp
  next
    case 2
    with st have lt: "st < en" by linarith
    from mid_bounds [OF st(1) lt] have m: "st \<le> mid st en" "mid st en < en" by auto
    have st': "0 \<le> mid st en + 1" "mid st en + 1 \<le> en" using st(1) m by auto
    from q 2 obtain l r where l: "T_query st (mid st en) i j = Some l"
      and r: "T_query (mid st en + 1) en i j = Some r" and q': "q = 4 + l + r"
      by (subst (asm) T_query.simps)
         (auto simp: T_applyPending_eq [OF st(1) lt] Option.bind_eq_Some_conv)
    have "nat (mid st en - st) < nat (en - st)" using m by simp
    from less.hyps [OF this st(1) m(1) l]
    obtain l' where l': "T_update st (mid st en) i j = Some l'" "l' \<le> l" by blast
    have "nat (en - (mid st en + 1)) < nat (en - st)" using m by simp
    from less.hyps [OF this st' r]
    obtain r' where r': "T_update (mid st en + 1) en i j = Some r'" "r' \<le> r" by blast
    define l'' where "l'' = (if i \<le> mid st en then l' else 0)"
    define r'' where "r'' = (if j > mid st en then r' else 0)"
    have "(if i \<le> mid st en then T_update st (mid st en) i j else Some 0) = Some l''"
      by (simp add: l''_def l')
    moreover have "(if j > mid st en then T_update (mid st en + 1) en i j else Some 0) = Some r''"
      by (simp add: r''_def r')
    ultimately have "T_update st en i j = Some (4 + l'' + r'')"
      by (rule T_update_partial [OF 2 st(1) lt])
    moreover have "4 + l'' + r'' \<le> q" using l'(2) r'(2) by (simp add: q' l''_def r''_def)
    ultimately show ?thesis by blast
  qed
qed

lemma T_update_bound:
  assumes "0 \<le> st" "st \<le> en" "en - st + 1 \<le> 2 ^ h"
  shows "\<exists>t. T_update st en i j = Some t \<and> t \<le> 10 * h + 1"
proof -
  from T_query_bound [OF assms, of i j]
  obtain q where q: "T_query st en i j = Some q" "q \<le> 10 * h + 1" by blast
  from T_update_le_query [OF assms(1,2) q(1)] q(2) show ?thesis by force
qed

lemma T_build_eq:
  "0 \<le> st \<Longrightarrow> st \<le> en \<Longrightarrow> T_build st en = Some (2 * nat (en - st + 1) - 1)"
proof (induction "nat (en - st)" arbitrary: st en rule: less_induct)
  case less
  show ?case
  proof (cases "st = en")
    case True
    then show ?thesis by (subst T_build.simps) simp
  next
    case False
    with less.prems have lt: "st < en" by simp
    from mid_bounds [OF less.prems(1) lt] have m: "st \<le> mid st en" "mid st en < en" by auto
    have "nat (mid st en - st) < nat (en - st)" using m by simp
    from less.hyps [OF this less.prems(1) m(1)]
    have l: "T_build st (mid st en) = Some (2 * nat (mid st en - st + 1) - 1)" .
    have "nat (en - (mid st en + 1)) < nat (en - st)" using m by simp
    from less.hyps [OF this] less.prems(1) m
    have r: "T_build (mid st en + 1) en = Some (2 * nat (en - (mid st en + 1) + 1) - 1)" by simp
    define a where "a = 2 * nat (mid st en - st + 1) - 1"
    define b where "b = 2 * nat (en - (mid st en + 1) + 1) - 1"
    have "T_build st en = Some (1 + a + b)"
      using False by (subst T_build.simps) (simp only: l r a_def b_def if_False Option.bind.simps)
    moreover have "1 + a + b = 2 * nat (en - st + 1) - 1"
      unfolding a_def b_def using m by linarith
    ultimately show ?thesis by simp
  qed
qed

lemma agg_const:
  "a \<le> b \<Longrightarrow> node_join A c c = c \<Longrightarrow> (\<And>x. a \<le> x \<Longrightarrow> x \<le> b \<Longrightarrow> f x = c) \<Longrightarrow> agg A f a b = c"
proof (induction A f a b rule: agg.induct)
  case (1 A f a b)
  show ?case
  proof (cases "a < b")
    case True
    have "agg A f (a + 1) b = c" using True "1.prems" by (intro "1.IH") auto
    moreover have "f a = c" using "1.prems" by simp
    ultimately show ?thesis using True "1.prems"(2) by (simp add: agg_step)
  next
    case False
    with "1.prems" have "a = b" by simp
    with "1.prems" show ?thesis by simp
  qed
qed

lemma query_top_value:
  assumes L: "laws A W" and G: "good A W s" and i: "0 \<le> i" "i \<le> j" "j < tsize s"
    and N: "\<And>x. i \<le> x \<Longrightarrow> x \<le> j \<Longrightarrow> neutral A (elem A s x)"
  shows "\<exists>s'. query_top A i j s = ok (s', agg A (elem A s) i j) \<and> good A W s' \<and>
           tsize s' = tsize s \<and> (\<forall>x. 0 \<le> x \<and> x < tsize s \<longrightarrow> elem A s' x = elem A s x)"
proof -
  from query_top_good [OF L G, of i j]
  obtain s' r where q: "query_top A i j s = ok (s', r)" "good A W s'" "tsize s' = tsize s"
    "\<forall>x. 0 \<le> x \<and> x < tsize s \<longrightarrow> elem A s' x = elem A s x"
    "r = decomp A (elem A s) 0 (tsize s - 1) i j" by blast
  have "decomp A (elem A s) 0 (tsize s - 1) i j
        = range_agg A (elem A s) (max 0 i) (min (tsize s - 1) j)"
    using i N by (intro decomp_range_agg [OF L]) auto
  also have "\<dots> = agg A (elem A s) i j"
  proof -
    have "max 0 i = i" "min (tsize s - 1) j = j" using i by auto
    then show ?thesis using i by (simp add: range_agg_def)
  qed
  finally show ?thesis using q by auto
qed

lemmas eval_simps = build.simps update.simps query.simps applyPending_def pull_def
  set_tree_def set_pending_def set_hasPending_def vget_def vset_def
  left_def right_def mid_def signed_divide_int_def
  SegTree_build_def SegTree_init_def int32_def build_top_def update_top_def query_top_def
  MinMax_def Node_new_def Node_of_def Node_join_def Op_new_def Op_apply_def Op_merge_def INF_int_def

lemma build_t4: "SegTree_build MinMax 4 [3, 1, 4, 1] = ok t4"
  by (simp add: eval_simps t4_def numeral_eq_Suc)

lemma reachable_t4: "reachable MinMax set_or_add t4"
  by (rule reachable.built [of 4 "[3, 1, 4, 1]"]) (simp_all add: build_t4)

lemma lens_t4: "lens 17 t4"
  by (simp add: lens_def t4_def)

lemma SegTree_build_ok:
  assumes "1 \<le> n" "n \<le> int (length arr)" "n < 536870912"
  shows "\<exists>s. SegTree_build A n arr = ok s \<and> tsize s = n \<and> lens (nat (4 * n + 1)) s"
proof -
  define s0 :: "('a, 'b) segtree" where "s0 = \<lparr>tsize = n,
               tree = replicate (nat (4 * n + 1)) (Node_default A),
               hasPending = replicate (nat (4 * n + 1)) False,
               pending = replicate (nat (4 * n + 1)) (Op_default A)\<rparr>"
  have i: "SegTree_init A n = ok s0" using assms by (simp add: SegTree_init_ok s0_def)
  have len: "lens (nat (4 * n + 1)) s0" by (simp add: lens_def s0_def)
  have arr: "n - 1 < int (length arr)" using assms by simp
  from build_ok [OF pos_root [OF assms(1)] len arr, of A]
  obtain s where "build A arr 1 0 (n - 1) s0 = ok s" "lens (nat (4 * n + 1)) s" "tsize s = tsize s0"
    by blast
  then show ?thesis by (auto simp: SegTree_build_def i build_top_def s0_def)
qed

lemma same_content_refl [simp]: "same_content A s s"
  by (simp add: same_content_def)

lemma same_content_trans: "same_content A s t \<Longrightarrow> same_content A t w \<Longrightarrow> same_content A s w"
  by (simp add: same_content_def)

lemma same_content_sym: "same_content A s t \<Longrightarrow> same_content A t s"
  by (simp add: same_content_def)

lemma query_top_content:
  assumes L: "laws A W" and G: "good A W s"
  shows "\<exists>s'. query_top A i j s = ok (s', decomp A (elem A s) 0 (tsize s - 1) i j) \<and>
           good A W s' \<and> same_content A s s'"
  using query_top_good [OF L G, of i j] by (auto simp: same_content_def)

lemma decomp_same_content:
  assumes "same_content A s t" "1 \<le> tsize s"
  shows "decomp A (elem A t) 0 (tsize t - 1) i j = decomp A (elem A s) 0 (tsize s - 1) i j"
proof -
  from assms have n: "tsize t = tsize s" by (simp add: same_content_def)
  show ?thesis unfolding n
    using assms by (intro decomp_cong) (auto simp: same_content_def)
qed

lemma query_same_content:
  assumes L: "laws A W" and G: "good A W s" "good A W t" and S: "same_content A s t"
  shows "\<exists>s' t' r. query_top A i j s = ok (s', r) \<and> query_top A i j t = ok (t', r) \<and>
           good A W s' \<and> good A W t' \<and> same_content A s' t'"
proof -
  from query_top_content [OF L G(1), of i j]
  obtain s' where s': "query_top A i j s = ok (s', decomp A (elem A s) 0 (tsize s - 1) i j)"
    "good A W s'" "same_content A s s'" by blast
  from query_top_content [OF L G(2), of i j]
  obtain t' where t': "query_top A i j t = ok (t', decomp A (elem A t) 0 (tsize t - 1) i j)"
    "good A W t'" "same_content A t t'" by blast
  have n: "1 \<le> tsize s" using G(1) by (simp add: good_def)
  have "same_content A s' t'"
    using same_content_trans [OF same_content_sym [OF s'(3)] same_content_trans [OF S t'(3)]] .
  with s' t' decomp_same_content [OF S n, of i j] show ?thesis by auto
qed

lemma update_same_content:
  assumes L: "laws A W" and u: "W u" and G: "good A W s" "good A W t" and S: "same_content A s t"
  shows "\<exists>s' t'. update_top A i j u s = ok s' \<and> update_top A i j u t = ok t' \<and>
           good A W s' \<and> good A W t' \<and> same_content A s' t'"
proof -
  from update_top_good [OF L u G(1), of i j]
  obtain s' where s': "update_top A i j u s = ok s'" "good A W s'" "tsize s' = tsize s"
    "\<forall>x. 0 \<le> x \<and> x < tsize s \<longrightarrow>
              elem A s' x = (if i \<le> x \<and> x \<le> j then op_apply A u (elem A s x) x x else elem A s x)"
    by blast
  from update_top_good [OF L u G(2), of i j]
  obtain t' where t': "update_top A i j u t = ok t'" "good A W t'" "tsize t' = tsize t"
    "\<forall>x. 0 \<le> x \<and> x < tsize t \<longrightarrow>
              elem A t' x = (if i \<le> x \<and> x \<le> j then op_apply A u (elem A t x) x x else elem A t x)"
    by blast
  have "same_content A s' t'"
    using S s'(3,4) t'(3,4) by (simp add: same_content_def)
  with s' t' show ?thesis by blast
qed

lemma query_times_content:
  assumes L: "laws A W"
  shows "good A W s \<Longrightarrow>
         \<exists>t. query_times A k i j s = ok (t, replicate k (decomp A (elem A s) 0 (tsize s - 1) i j))"
proof (induction k arbitrary: s)
  case 0
  show ?case by simp
next
  case (Suc k)
  from query_top_content [OF L Suc.prems, of i j]
  obtain s' where s': "query_top A i j s = ok (s', decomp A (elem A s) 0 (tsize s - 1) i j)"
    "good A W s'" "same_content A s s'" by blast
  have n: "1 \<le> tsize s" using Suc.prems by (simp add: good_def)
  from Suc.IH [OF s'(2)] decomp_same_content [OF s'(3) n, of i j]
  obtain t where "query_times A k i j s' = ok (t, replicate k (decomp A (elem A s) 0 (tsize s - 1) i j))"
    by auto
  with s'(1) show ?case by simp
qed

lemma seed4: "0 \<le> x \<Longrightarrow> x < 4 \<Longrightarrow> [3, 1, 4, 1 :: int] ! nat x \<in> {1, 3, 4}"
proof -
  assume "0 \<le> x" "x < 4"
  then have "x = 0 \<or> x = 1 \<or> x = 2 \<or> x = 3" by arith
  then show ?thesis by (auto simp: numeral_eq_Suc)
qed

lemma elem_t4: "0 \<le> x \<Longrightarrow> x < 4 \<Longrightarrow> elem MinMax t4 x = Node_of x ([3, 1, 4, 1] ! nat x)"
  using SegTree_build_good [OF MinMax_laws, of 4 "[3, 1, 4, 1]"] by (simp add: build_t4)

lemma neutral_t4: "0 \<le> x \<Longrightarrow> x < 4 \<Longrightarrow> neutral MinMax (elem MinMax t4 x)"
  using seed4 [of x] by (auto simp: elem_t4 MinMax_neutral Node_of_def INF_int_def)

lemma tsize_t4 [simp]: "tsize t4 = 4"
  by (simp add: t4_def)

lemma foldl_join_assoc:
  "laws A W \<Longrightarrow> foldl (node_join A) (node_join A a x) xs = node_join A a (foldl (node_join A) x xs)"
  by (induction xs arbitrary: x) (simp_all add: laws_assoc)

lemma join_all_Cons:
  "laws A W \<Longrightarrow> rs \<noteq> [] \<Longrightarrow> join_all A (r # rs) = node_join A r (join_all A rs)"
  by (cases rs) (simp_all add: join_all_def foldl_join_assoc)

lemma queries_join:
  assumes L: "laws A W"
  shows "good A W s \<Longrightarrow> splits i j ivs \<Longrightarrow> 0 \<le> i \<Longrightarrow> j < tsize s \<Longrightarrow>
         (\<And>x. i \<le> x \<Longrightarrow> x \<le> j \<Longrightarrow> neutral A (elem A s x)) \<Longrightarrow>
         \<exists>s1 rs. queries A ivs s = ok (s1, rs) \<and> rs \<noteq> [] \<and>
                 join_all A rs = agg A (elem A s) i j"
proof (induction i j ivs arbitrary: s rule: splits.induct)
  case (1 i j)
  then show ?case by simp
next
  case (2 i j a b)
  then have ab: "a = i" "b = j" "i \<le> j" by auto
  from query_top_value [OF L "2.prems"(1), of i j] "2.prems" ab
  obtain s' where "query_top A i j s = ok (s', agg A (elem A s) i j)" by auto
  then show ?case by (simp add: ab join_all_def)
next
  case (3 i j a b iv ivs)
  then have ab: "a = i" "i \<le> b" "b < j" and sp: "splits (b + 1) j (iv # ivs)" by auto
  note G = "3.prems"(1)
  from query_top_value [OF L G, of i b] "3.prems"(3-) ab
  obtain s' where s': "query_top A i b s = ok (s', agg A (elem A s) i b)"
    and G': "good A W s'" and n': "tsize s' = tsize s"
    and e': "\<And>x. 0 \<le> x \<Longrightarrow> x < tsize s \<Longrightarrow> elem A s' x = elem A s x"
    by auto
  have "\<exists>s1 rs. queries A (iv # ivs) s' = ok (s1, rs) \<and> rs \<noteq> [] \<and>
                 join_all A rs = agg A (elem A s') (b + 1) j"
    using "3.prems"(3-) ab by (intro "3.IH" G' sp) (auto simp: n' e')
  then obtain s1 rs where rs: "queries A (iv # ivs) s' = ok (s1, rs)" "rs \<noteq> []"
    "join_all A rs = agg A (elem A s') (b + 1) j" by blast
  have "agg A (elem A s') (b + 1) j = agg A (elem A s) (b + 1) j"
    using "3.prems"(3-) ab by (intro agg_cong) (auto simp: e')
  then have "join_all A (agg A (elem A s) i b # rs) = agg A (elem A s) i j"
    using ab rs(2,3) by (simp add: join_all_Cons [OF L] agg_split [OF L, of i b j])
  moreover have "queries A ((a, b) # iv # ivs) s = ok (s1, agg A (elem A s) i b # rs)"
    using s' rs(1) by (simp add: ab)
  ultimately show ?case by blast
qed

lemma reach_pos: "reach nd a b node st en \<Longrightarrow> pos c nd a b \<Longrightarrow> pos c node st en"
proof (induction rule: reach.induct)
  case (here node st en)
  then show ?case .
next
  case (below_left a b nd node st en)
  then show ?case using pos_children(1) by blast
next
  case (below_right a b nd node st en)
  then show ?case using pos_children(2) by blast
qed

lemma position_pos: "1 \<le> n \<Longrightarrow> position n node st en \<Longrightarrow> pos (nat (4 * n + 1)) node st en"
  unfolding position_def using reach_pos pos_root by blast

lemma reach_consistent:
  "reach nd a b node st en \<Longrightarrow> pos c nd a b \<Longrightarrow> consistent A W s nd a b \<Longrightarrow>
   consistent A W s node st en"
proof (induction rule: reach.induct)
  case (here node st en)
  then show ?case by simp
next
  case (below_left a b nd node st en)
  from below_left.prems(1) have "0 \<le> a" by (simp add: pos_def)
  with below_left.prems(2) below_left.hyps(1)
  have "consistent A W s (left nd) a (mid a b)" by (simp add: consistent_node)
  with below_left.IH pos_children(1) [OF below_left.prems(1) below_left.hyps(1)]
  show ?case by blast
next
  case (below_right a b nd node st en)
  from below_right.prems(1) have "0 \<le> a" by (simp add: pos_def)
  with below_right.prems(2) below_right.hyps(1)
  have "consistent A W s (right nd) (mid a b + 1) b" by (simp add: consistent_node)
  with below_right.IH pos_children(2) [OF below_right.prems(1) below_right.hyps(1)]
  show ?case by blast
qed

lemma reach_halved:
  "reach nd a b node st en \<Longrightarrow> pos c nd a b \<Longrightarrow> halved A arr s nd a b \<Longrightarrow>
   tree s ! nat node = built A arr st en"
proof (induction rule: reach.induct)
  case (here node st en)
  then show ?case by (subst (asm) halved.simps) simp
next
  case (below_left a b nd node st en)
  from below_left.prems(1) have "0 \<le> a" by (simp add: pos_def)
  with below_left.prems(2) below_left.hyps(1)
  have "halved A arr s (left nd) a (mid a b)" by (subst (asm) halved.simps) simp
  with below_left.IH pos_children(1) [OF below_left.prems(1) below_left.hyps(1)]
  show ?case by blast
next
  case (below_right a b nd node st en)
  from below_right.prems(1) have "0 \<le> a" by (simp add: pos_def)
  with below_right.prems(2) below_right.hyps(1)
  have "halved A arr s (right nd) (mid a b + 1) b" by (subst (asm) halved.simps) simp
  with below_right.IH pos_children(2) [OF below_right.prems(1) below_right.hyps(1)]
  show ?case by blast
qed

lemma halved_cong:
  "(\<And>k. insub node k \<Longrightarrow> same_at s s' k) \<Longrightarrow>
   halved A arr s' node st en = halved A arr s node st en"
proof (induction A arr s node st en rule: halved.induct)
  case (1 A arr s node st en)
  have self: "same_at s s' node" using "1.prems" insub_self by blast
  show ?case
  proof (cases "0 \<le> st \<and> st < en")
    case True
    have l: "halved A arr s' (left node) st (mid st en) = halved A arr s (left node) st (mid st en)"
      using True by (intro "1.IH"(1)) (auto intro: "1.prems" insub_left)
    have r: "halved A arr s' (right node) (mid st en + 1) en
             = halved A arr s (right node) (mid st en + 1) en"
      using True by (intro "1.IH"(2)) (auto intro: "1.prems" insub_right)
    show ?thesis
      using True self l r
      by (subst halved.simps, subst (2) halved.simps) (simp add: same_at_def)
  next
    case False
    then show ?thesis using self
      by (subst halved.simps, subst (2) halved.simps) (auto simp: same_at_def)
  qed
qed

lemma build_halving:
  "pos c node st en \<Longrightarrow> lens c s \<Longrightarrow> en < int (length arr) \<Longrightarrow>
   \<exists>s'. build A arr node st en s = ok s' \<and> frame node s s' \<and> halved A arr s' node st en"
proof (induction "nat (en - st)" arbitrary: node st en s rule: less_induct)
  case less
  note P = less.prems(1) and len = less.prems(2) and arr = less.prems(3)
  from P have st: "0 \<le> st" "st \<le> en" by (auto simp: pos_def)
  from pos_node [OF P] have n: "1 \<le> node" "node < int c" by auto
  have n0: "0 \<le> node" using n by simp
  show ?case
  proof (cases "st = en")
    case True
    define s' where "s' = s\<lparr>tree := (tree s)[nat node := Node_leaf A st (arr ! nat st)]\<rparr>"
    have eq: "build A arr node st en s = ok s'"
      unfolding True [symmetric] s'_def using st n arr len True
      by (intro build_leaf) (auto simp: lens_def)
    have a: "tsize s' = tsize s" "tree s' = (tree s)[nat node := Node_leaf A st (arr ! nat st)]"
      "hasPending s' = (hasPending s)[nat node := hasPending s ! nat node]"
      "pending s' = (pending s)[nat node := pending s ! nat node]"
      by (simp_all add: s'_def)
    note pf = point_frame [OF a n0]
    have "built A arr st en = Node_leaf A st (arr ! nat st)"
      using True by (subst built.simps) simp
    then have "halved A arr s' node st en"
      using True n len by (subst halved.simps) (simp add: s'_def lens_def)
    with eq pf(1) show ?thesis by blast
  next
    case False
    with st have lt: "st < en" by simp
    from mid_bounds [OF st(1) lt] have m: "st \<le> mid st en" "mid st en < en" by auto
    note Pl = pos_children(1) [OF P lt] and Pr = pos_children(2) [OF P lt]
    from pos_node [OF Pl] have nl: "1 \<le> left node" "left node < int c" by auto
    from pos_node [OF Pr] have nr: "1 \<le> right node" "right node < int c" by auto
    have "nat (mid st en - st) < nat (en - st)" using m by simp
    from less.hyps [OF this Pl len] m arr
    obtain s1 where s1: "build A arr (left node) st (mid st en) s = ok s1"
      and f1: "frame (left node) s s1" and H1: "halved A arr s1 (left node) st (mid st en)"
      by force
    have len1: "lens c s1" using frame_lens [OF f1 len] .
    have "nat (en - (mid st en + 1)) < nat (en - st)" using m by simp
    from less.hyps [OF this Pr len1] arr
    obtain s2 where s2: "build A arr (right node) (mid st en + 1) en s1 = ok s2"
      and f2: "frame (right node) s1 s2" and H2r: "halved A arr s2 (right node) (mid st en + 1) en"
      by force
    have len2: "lens c s2" using frame_lens [OF f2 len1] .
    have H2l: "halved A arr s2 (left node) st (mid st en)"
      using H1 halved_cong [of "left node" s1 s2 A arr st "mid st en"]
        frame_right_keeps_left [OF f2 n(1)] by blast
    define t where "t = node_join A (tree s2 ! nat (left node)) (tree s2 ! nat (right node))"
    define s' where "s' = s2\<lparr>tree := (tree s2)[nat node := t]\<rparr>"
    have p: "pull A node s2 = ok s'"
      using n nl nr len2 by (simp add: pull_def vget_ok set_tree_ok lens_def s'_def t_def)
    have a: "tsize s' = tsize s2" "tree s' = (tree s2)[nat node := t]"
      "hasPending s' = (hasPending s2)[nat node := hasPending s2 ! nat node]"
      "pending s' = (pending s2)[nat node := pending s2 ! nat node]"
      by (simp_all add: s'_def)
    note pf = point_frame [OF a n0]
    note ch = point_children [OF pf(2) n(1)]
    have Hl: "halved A arr s' (left node) st (mid st en)"
      using H2l halved_cong [of "left node" s2 s' A arr st "mid st en"] ch(1) by blast
    have Hr: "halved A arr s' (right node) (mid st en + 1) en"
      using H2r halved_cong [of "right node" s2 s' A arr "mid st en + 1" en] ch(2) by blast
    have tl: "tree s2 ! nat (left node) = built A arr st (mid st en)"
      using H2l by (subst (asm) halved.simps) simp
    have tr: "tree s2 ! nat (right node) = built A arr (mid st en + 1) en"
      using H2r by (subst (asm) halved.simps) simp
    have "built A arr st en = t"
      using st lt by (subst built.simps) (simp add: t_def tl tr)
    moreover have "tree s' ! nat node = t" using n len2 by (simp add: s'_def lens_def)
    ultimately have "halved A arr s' node st en"
      using st lt Hl Hr by (subst halved.simps) simp
    moreover have "build A arr node st en s = ok s'"
      by (subst build_node [OF False]) (simp add: s1 s2 p)
    moreover have "frame node s s'"
      using frame_trans [OF frame_trans [OF frame_left [OF f1] frame_right [OF f2]] pf(1)] .
    ultimately show ?thesis by blast
  qed
qed

lemma built_agg:
  "laws A W \<Longrightarrow> 0 \<le> st \<Longrightarrow> st \<le> en \<Longrightarrow>
   built A arr st en = agg A (\<lambda>x. Node_leaf A x (arr ! nat x)) st en"
proof (induction A arr st en rule: built.induct)
  case (1 A arr st en)
  show ?case
  proof (cases "st < en")
    case True
    from mid_bounds [OF "1.prems"(2) True] have m: "st \<le> mid st en" "mid st en < en" by auto
    have l: "built A arr st (mid st en) = agg A (\<lambda>x. Node_leaf A x (arr ! nat x)) st (mid st en)"
      using True "1.prems" m by (intro "1.IH"(1)) auto
    have r: "built A arr (mid st en + 1) en
             = agg A (\<lambda>x. Node_leaf A x (arr ! nat x)) (mid st en + 1) en"
      using True "1.prems" m by (intro "1.IH"(2)) auto
    show ?thesis
      using True "1.prems"(2) m
      by (subst built.simps) (simp add: l r agg_split [OF "1.prems"(1), of st "mid st en" en])
  next
    case False
    with "1.prems" have "st = en" by simp
    then show ?thesis by (subst built.simps) simp
  qed
qed

lemma position_4_3: "position 4 3 2 3"
proof -
  have "reach (right 1) (mid 0 3 + 1) 3 3 2 3"
    using reach.here [of 3 2 3] by (simp add: right_def mid_def signed_divide_int_def)
  then have "reach 1 0 3 3 2 3" by (rule reach.below_right [rotated]) simp
  then show ?thesis by (simp add: position_def)
qed

lemma insub_trans: "insub a b \<Longrightarrow> insub b c \<Longrightarrow> insub a c"
proof -
  assume "insub a b" "insub b c"
  then obtain d e :: nat where "b div 2 ^ d = a" "c div 2 ^ e = b" by (auto simp: insub_def)
  then have "c div 2 ^ (e + d) = a" by (simp add: div_pow_add)
  then show ?thesis unfolding insub_def by blast
qed

lemma insub_le: "insub a b \<Longrightarrow> 0 \<le> a \<Longrightarrow> a \<le> b"
proof -
  assume i: "insub a b" and a: "0 \<le> a"
  from insub_nonneg [OF i a] have b: "0 \<le> b" .
  from i obtain d :: nat where "b div 2 ^ d = a" by (auto simp: insub_def)
  with div_pow_le [OF b, of d] show ?thesis by simp
qed

lemma reach_insub: "reach nd a b node st en \<Longrightarrow> insub nd node"
proof (induction rule: reach.induct)
  case (here node st en)
  show ?case by (rule insub_self)
next
  case (below_left a b nd node st en)
  then show ?case using insub_left by blast
next
  case (below_right a b nd node st en)
  then show ?case using insub_right by blast
qed

lemma reach_range: "reach nd a b node st en \<Longrightarrow> pos c nd a b \<Longrightarrow> a \<le> st \<and> en \<le> b"
proof (induction rule: reach.induct)
  case (here node st en)
  show ?case by simp
next
  case (below_left a b nd node st en)
  from below_left.prems have a: "0 \<le> a" by (simp add: pos_def)
  from mid_bounds [OF a below_left.hyps(1)] below_left.IH
    pos_children(1) [OF below_left.prems below_left.hyps(1)]
  show ?case by auto
next
  case (below_right a b nd node st en)
  from below_right.prems have a: "0 \<le> a" by (simp add: pos_def)
  from mid_bounds [OF a below_right.hyps(1)] below_right.IH
    pos_children(2) [OF below_right.prems below_right.hyps(1)]
  show ?case by auto
qed

lemma same_at_trans: "same_at s t k \<Longrightarrow> same_at t w k \<Longrightarrow> same_at s w k"
  by (simp add: same_at_def)

lemma update_full_touch:
  assumes P: "pos c node st en" and len: "lens c s" and I: "i \<le> st" "en \<le> j"
  shows "\<exists>s'. update A node st en i j u s = ok s' \<and> lens c s' \<and>
           (\<forall>k. 0 \<le> k \<and> k \<noteq> node \<longrightarrow> same_at s s' k)"
proof -
  from pos_node [OF P] have n: "1 \<le> node" "node < int c" by auto
  from P have st: "0 \<le> st" "st \<le> en" by (auto simp: pos_def)
  have n0: "0 \<le> node" using n by simp
  show ?thesis
  proof (cases "st = en")
    case True
    define s' where "s' = s\<lparr>tree := (tree s)[nat node := op_apply A u (tree s ! nat node) st st]\<rparr>"
    have eq: "update A node st en i j u s = ok s'"
      unfolding s'_def True [symmetric] using I n len True
      by (intro update_leaf_eq) (auto simp: lens_def)
    have a: "tsize s' = tsize s"
      "tree s' = (tree s)[nat node := op_apply A u (tree s ! nat node) st st]"
      "hasPending s' = (hasPending s)[nat node := hasPending s ! nat node]"
      "pending s' = (pending s)[nat node := pending s ! nat node]"
      by (simp_all add: s'_def)
    from point_frame [OF a n0] frame_lens [OF _ len] eq show ?thesis by blast
  next
    case False
    with st have lt: "st < en" by simp
    define p' where "p' = (if hasPending s ! nat node then op_merge A (pending s ! nat node) u st en else u)"
    define s' where "s' = s\<lparr>tree := (tree s)[nat node := op_apply A u (tree s ! nat node) st en],
               pending := (pending s)[nat node := p'],
               hasPending := (hasPending s)[nat node := True]\<rparr>"
    have eq: "update A node st en i j u s = ok s'"
      unfolding s'_def p'_def using lt I n len by (intro update_contained_eq) auto
    have a: "tsize s' = tsize s"
      "tree s' = (tree s)[nat node := op_apply A u (tree s ! nat node) st en]"
      "hasPending s' = (hasPending s)[nat node := True]"
      "pending s' = (pending s)[nat node := p']"
      by (simp_all add: s'_def)
    from point_frame [OF a n0] frame_lens [OF _ len] eq show ?thesis by blast
  qed
qed

lemma applyPending_touch:
  assumes P: "pos c node st en" and lt: "st < en" and len: "lens c s"
  shows "\<exists>s1. applyPending A node st en s = ok s1 \<and> lens c s1 \<and>
           (\<forall>k. 0 \<le> k \<and> k \<noteq> node \<and> k \<noteq> left node \<and> k \<noteq> right node \<longrightarrow> same_at s s1 k)"
proof -
  from pos_node [OF P] have n: "1 \<le> node" "node < int c" by auto
  from P have st: "0 \<le> st" by (auto simp: pos_def)
  from mid_bounds [OF st lt] have m: "st \<le> mid st en" "mid st en < en" by auto
  have b: "0 \<le> node" "node < int (length (hasPending s))" "node < int (length (pending s))"
    using n len by (simp_all add: lens_def)
  show ?thesis
  proof (cases "hasPending s ! nat node")
    case False
    then have "applyPending A node st en s = ok s" using b by (simp add: applyPending_def vget_ok)
    with len show ?thesis by (auto simp: same_at_def)
  next
    case True
    from update_full_touch [OF pos_children(1) [OF P lt] len, of st en A "pending s ! nat node"] m
    obtain sa where sa: "update A (left node) st (mid st en) st en (pending s ! nat node) s = ok sa"
      and lena: "lens c sa"
      and ta: "\<And>k. 0 \<le> k \<Longrightarrow> k \<noteq> left node \<Longrightarrow> same_at s sa k" by auto
    have ba: "node < int (length (pending sa))" using n lena by (simp add: lens_def)
    from update_full_touch [OF pos_children(2) [OF P lt] lena, of st en A "pending sa ! nat node"] m
    obtain sb where sb: "update A (right node) (mid st en + 1) en st en (pending sa ! nat node) sa = ok sb"
      and lenb: "lens c sb"
      and tb: "\<And>k. 0 \<le> k \<Longrightarrow> k \<noteq> right node \<Longrightarrow> same_at sa sb k" by auto
    have bb: "node < int (length (hasPending sb))" using n lenb by (simp add: lens_def)
    define s1 where "s1 = sb\<lparr>hasPending := (hasPending sb)[nat node := False]\<rparr>"
    have eq: "applyPending A node st en s = ok s1"
      using True b ba bb sa sb by (simp add: applyPending_def vget_ok set_hasPending_ok s1_def)
    have a: "tsize s1 = tsize sb" "tree s1 = (tree sb)[nat node := tree sb ! nat node]"
      "hasPending s1 = (hasPending sb)[nat node := False]"
      "pending s1 = (pending sb)[nat node := pending sb ! nat node]"
      by (simp_all add: s1_def)
    note pf = point_frame [OF a b(1)]
    have "same_at s s1 k" if "0 \<le> k" "k \<noteq> node" "k \<noteq> left node" "k \<noteq> right node" for k
      using same_at_trans [OF same_at_trans [OF ta tb] pf(2)] that by blast
    with eq frame_lens [OF pf(1) lenb] show ?thesis by blast
  qed
qed

lemma query_lands:
  "reach nd a b node st en \<Longrightarrow> pos c nd a b \<Longrightarrow> lens c s \<Longrightarrow>
   \<exists>s' r. query A nd a b st en s = ok (s', r) \<and> lens c s' \<and>
     (\<forall>k. insub node k \<and> k \<noteq> node \<longrightarrow> same_at s s' k)"
proof (induction arbitrary: s rule: reach.induct)
  case (here node st en)
  from here.prems have st: "st \<le> en" by (simp add: pos_def)
  from pos_node [OF here.prems(1)] here.prems(2)
  have "0 \<le> node" "node < int (length (tree s))" by (auto simp: lens_def)
  with st have "query A node st en st en s = ok (s, tree s ! nat node)"
    by (intro query_contained) auto
  with here.prems(2) show ?case by (auto simp: same_at_def)
next
  case (below_left a b nd node st en)
  note lt = below_left.hyps(1) and P = below_left.prems(1) and len = below_left.prems(2)
  from P have a: "0 \<le> a" by (simp add: pos_def)
  from pos_node [OF P] have n: "1 \<le> nd" by simp
  from mid_bounds [OF a lt] have m: "a \<le> mid a b" "mid a b < b" by auto
  note Pl = pos_children(1) [OF P lt]
  from reach_range [OF below_left.hyps(2) Pl] have r: "a \<le> st" "en \<le> mid a b" by auto
  from reach_pos [OF below_left.hyps(2) Pl] have se: "st \<le> en" "1 \<le> node"
    using pos_node by (auto simp: pos_def)
  from applyPending_touch [OF P lt len, of A]
  obtain s1 where s1: "applyPending A nd a b s = ok s1" and len1: "lens c s1"
    and t1: "\<And>k. 0 \<le> k \<Longrightarrow> k \<noteq> nd \<Longrightarrow> k \<noteq> left nd \<Longrightarrow> k \<noteq> right nd \<Longrightarrow> same_at s s1 k"
    by blast
  from below_left.IH [OF Pl len1]
  obtain s2 r1 where s2: "query A (left nd) a (mid a b) st en s1 = ok (s2, r1)"
    and len2: "lens c s2" and t2: "\<And>k. insub node k \<Longrightarrow> k \<noteq> node \<Longrightarrow> same_at s1 s2 k"
    by blast
  have s3: "query A (right nd) (mid a b + 1) b st en s2 = ok (s2, Node_default A)"
    using r by (intro query_outside) auto
  have "\<not> (en < a \<or> b < st)" "\<not> (st \<le> a \<and> b \<le> en)" using r m se by auto
  then have eq: "query A nd a b st en s = ok (s2, node_join A r1 (Node_default A))"
    by (subst query_partial) (simp_all add: s1 s2 s3)
  have il: "insub (left nd) node" using reach_insub [OF below_left.hyps(2)] .
  have "same_at s s2 k" if k: "insub node k" "k \<noteq> node" for k
  proof -
    have ik: "insub (left nd) k" using insub_trans [OF il k(1)] .
    have k0: "0 \<le> k" using insub_nonneg [OF k(1)] se(2) by simp
    have "k \<noteq> nd" using ik insub_child_not_self(1) [OF n] by blast
    moreover have "k \<noteq> right nd" using insub_not_both [OF n ik] insub_self by blast
    moreover have "k \<noteq> left nd"
    proof
      assume e: "k = left nd"
      from insub_le [OF k(1)] se(2) have "node \<le> k" by simp
      moreover from insub_le [OF il] n have "left nd \<le> node" by (simp add: left_def)
      ultimately show False using e k(2) by simp
    qed
    ultimately show ?thesis using same_at_trans [OF t1 t2] k k0 by blast
  qed
  with eq len2 show ?case by blast
next
  case (below_right a b nd node st en)
  note lt = below_right.hyps(1) and P = below_right.prems(1) and len = below_right.prems(2)
  from P have a: "0 \<le> a" by (simp add: pos_def)
  from pos_node [OF P] have n: "1 \<le> nd" by simp
  from mid_bounds [OF a lt] have m: "a \<le> mid a b" "mid a b < b" by auto
  note Pr = pos_children(2) [OF P lt]
  from reach_range [OF below_right.hyps(2) Pr] have r: "mid a b + 1 \<le> st" "en \<le> b" by auto
  from reach_pos [OF below_right.hyps(2) Pr] have se: "st \<le> en" "1 \<le> node"
    using pos_node by (auto simp: pos_def)
  from applyPending_touch [OF P lt len, of A]
  obtain s1 where s1: "applyPending A nd a b s = ok s1" and len1: "lens c s1"
    and t1: "\<And>k. 0 \<le> k \<Longrightarrow> k \<noteq> nd \<Longrightarrow> k \<noteq> left nd \<Longrightarrow> k \<noteq> right nd \<Longrightarrow> same_at s s1 k"
    by blast
  have s2: "query A (left nd) a (mid a b) st en s1 = ok (s1, Node_default A)"
    using r by (intro query_outside) auto
  from below_right.IH [OF Pr len1]
  obtain s3 r2 where s3: "query A (right nd) (mid a b + 1) b st en s1 = ok (s3, r2)"
    and len3: "lens c s3" and t3: "\<And>k. insub node k \<Longrightarrow> k \<noteq> node \<Longrightarrow> same_at s1 s3 k"
    by blast
  have "\<not> (en < a \<or> b < st)" "\<not> (st \<le> a \<and> b \<le> en)" using r m se by auto
  then have eq: "query A nd a b st en s = ok (s3, node_join A (Node_default A) r2)"
    by (subst query_partial) (simp_all add: s1 s2 s3)
  have ir: "insub (right nd) node" using reach_insub [OF below_right.hyps(2)] .
  have "same_at s s3 k" if k: "insub node k" "k \<noteq> node" for k
  proof -
    have ik: "insub (right nd) k" using insub_trans [OF ir k(1)] .
    have k0: "0 \<le> k" using insub_nonneg [OF k(1)] se(2) by simp
    have "k \<noteq> nd" using ik insub_child_not_self(2) [OF n] by blast
    moreover have "k \<noteq> left nd" using insub_not_both [OF n _ ik] insub_self by blast
    moreover have "k \<noteq> right nd"
    proof
      assume e: "k = right nd"
      from insub_le [OF k(1)] se(2) have "node \<le> k" by simp
      moreover from insub_le [OF ir] n have "right nd \<le> node" by (simp add: right_def)
      ultimately show False using e k(2) by simp
    qed
    ultimately show ?thesis using same_at_trans [OF t1 t3] k k0 by blast
  qed
  with eq len3 show ?case by blast
qed

lemma build_z2: "SegTree_build MinMax 2 [0, 0] = ok z2"
  by (simp add: eval_simps z2_def numeral_eq_Suc)

lemma update_z2: "update_top MinMax 0 1 \<lparr>code = CHR ''s'', arg = 5\<rparr> z2 = ok z2_set"
  by (simp add: eval_simps z2_def z2_set_def numeral_eq_Suc)

lemma reachable_z2_set: "reachable MinMax set_or_add z2_set"
proof -
  have "reachable MinMax set_or_add z2"
    by (rule reachable.built [of 2 "[0, 0]"]) (simp_all add: build_z2)
  then show ?thesis
    by (rule reachable.updated [OF _ _ update_z2]) (simp add: set_or_add_def)
qed

lemma position_2_2: "position 2 2 0 0"
proof -
  have "reach (left 1) 0 (mid 0 1) 2 0 0"
    using reach.here [of 2 0 0] by (simp add: left_def mid_def signed_divide_int_def)
  then have "reach 1 0 1 2 0 0" by (rule reach.below_left [rotated]) simp
  then show ?thesis by (simp add: position_def)
qed

section \<open>The claims\<close>

subsection \<open>Composition of pending updates\<close>

lemma update_contained_pending:
  assumes "st < en" "i \<le> st" "en \<le> j" "0 \<le> node"
    and "node < int (length (tree s))" "node < int (length (hasPending s))"
    and "node < int (length (pending s))" "hasPending s ! nat node"
  shows "update A node st en i j u s =
         ok (s\<lparr>tree := (tree s)[nat node := op_apply A u (tree s ! nat node) st en],
               pending := (pending s)[nat node := op_merge A (pending s ! nat node) u st en],
               hasPending := (hasPending s)[nat node := True]\<rparr>)"
  using assms
  by (subst update_unfold)
     (simp add: vget_ok set_tree_ok set_pending_ok set_hasPending_ok)

lemma Op_merge_then:
  assumes "set_or_add p" "set_or_add u"
  shows "Op_apply (Op_merge p u a b) x c d = Op_apply u (Op_apply p x c d) c d"
  using assms by (auto simp: set_or_add_def Op_apply_def Op_merge_def)

lemma Op_merge_closed: "set_or_add p \<Longrightarrow> set_or_add u \<Longrightarrow> set_or_add (Op_merge p u a b)"
  by (auto simp: set_or_add_def Op_merge_def)

text \<open>
  C4 (as amended). When \<open>update\<close> reaches a position inside \<open>[i, j]\<close> that is not a single
  element and holds a pending update \<open>p\<close>, the position's aggregate becomes
  \<open>op_apply u\<close> of it and the stored pending update becomes \<open>op_merge p u\<close> (\<open>p\<close> first,
  then \<open>u\<close>). In the instantiation of the source, for updates with code \<open>s\<close> or \<open>a\<close> (the
  two that \<^verbatim>\<open>main\<close> constructs), applying the merged update to any aggregate is applying
  \<open>p\<close> and then \<open>u\<close>, and merging an add after a pending set is the set of the sum.
\<close>

theorem pending_compose:
  "(st < en \<and> i \<le> st \<and> en \<le> j \<and> 0 \<le> node \<and> node < int (length (tree s)) \<and>
    node < int (length (hasPending s)) \<and> node < int (length (pending s)) \<and>
    hasPending s ! nat node \<longrightarrow>
      update A node st en i j u s =
        ok (s\<lparr>tree := (tree s)[nat node := op_apply A u (tree s ! nat node) st en],
              pending := (pending s)[nat node := op_merge A (pending s ! nat node) u st en],
              hasPending := (hasPending s)[nat node := True]\<rparr>)) \<and>
   (set_or_add p \<and> set_or_add q \<longrightarrow>
      Op_apply (Op_merge p q st en) x st en = Op_apply q (Op_apply p x st en) st en) \<and>
   Op_merge \<lparr>code = CHR ''s'', arg = v\<rparr> \<lparr>code = CHR ''a'', arg = d\<rparr> st en
     = \<lparr>code = CHR ''s'', arg = v + d\<rparr>"
proof (intro conjI impI)
  assume "st < en \<and> i \<le> st \<and> en \<le> j \<and> 0 \<le> node \<and> node < int (length (tree s)) \<and>
    node < int (length (hasPending s)) \<and> node < int (length (pending s)) \<and>
    hasPending s ! nat node"
  then show "update A node st en i j u s =
        ok (s\<lparr>tree := (tree s)[nat node := op_apply A u (tree s ! nat node) st en],
              pending := (pending s)[nat node := op_merge A (pending s ! nat node) u st en],
              hasPending := (hasPending s)[nat node := True]\<rparr>)"
    by (intro update_contained_pending) simp_all
next
  assume "set_or_add p \<and> set_or_add q"
  then show "Op_apply (Op_merge p q st en) x st en = Op_apply q (Op_apply p x st en) st en"
    by (simp add: Op_merge_then)
next
  show "Op_merge \<lparr>code = CHR ''s'', arg = v\<rparr> \<lparr>code = CHR ''a'', arg = d\<rparr> st en
     = \<lparr>code = CHR ''s'', arg = v + d\<rparr>"
    by (simp add: Op_merge_def)
qed

theorem pending_compose_witness:
  "update MinMax 1 0 1 0 1 \<lparr>code = CHR ''a'', arg = 3\<rparr>
     \<lparr>tsize = 2, tree = [Node_new, Node_of 0 5, Node_of 0 0, Node_of 1 0],
      hasPending = [False, True, False, False],
      pending = [Op_new, \<lparr>code = CHR ''s'', arg = 5\<rparr>, Op_new, Op_new]\<rparr>
   = ok \<lparr>tsize = 2, tree = [Node_new, Node_of 0 8, Node_of 0 0, Node_of 1 0],
      hasPending = [False, True, False, False],
      pending = [Op_new, \<lparr>code = CHR ''s'', arg = 8\<rparr>, Op_new, Op_new]\<rparr> \<and>
   Op_apply (Op_merge \<lparr>code = CHR ''s'', arg = 5\<rparr> \<lparr>code = CHR ''a'', arg = 3\<rparr> 0 1) (Node_of 0 0) 0 1
     = Op_apply \<lparr>code = CHR ''a'', arg = 3\<rparr> (Op_apply \<lparr>code = CHR ''s'', arg = 5\<rparr> (Node_of 0 0) 0 1) 0 1"
  using pending_compose [of 0 1 0 1 1
      "\<lparr>tsize = 2, tree = [Node_new, Node_of 0 5, Node_of 0 0, Node_of 1 0],
        hasPending = [False, True, False, False],
        pending = [Op_new, \<lparr>code = CHR ''s'', arg = 5\<rparr>, Op_new, Op_new]\<rparr>"
      MinMax "\<lparr>code = CHR ''a'', arg = 3\<rparr>"
      "\<lparr>code = CHR ''s'', arg = 5\<rparr>" "\<lparr>code = CHR ''a'', arg = 3\<rparr>" "Node_of 0 0" 0 0]
  by (simp add: set_or_add_def MinMax_def Op_apply_def Op_merge_def Node_of_def)

theorem pending_compose_counterexample:
  "Op_apply (Op_merge \<lparr>code = CHR ''s'', arg = 5\<rparr> \<lparr>code = CHR ''n'', arg = 3\<rparr> 0 1) (Node_of 0 0) 0 1
     \<noteq> Op_apply \<lparr>code = CHR ''n'', arg = 3\<rparr> (Op_apply \<lparr>code = CHR ''s'', arg = 5\<rparr> (Node_of 0 0) 0 1) 0 1"
  by (simp add: Op_apply_def Op_merge_def Node_of_def)

subsection \<open>The scenario with 100 elements\<close>

text \<open>
  C2. In the instantiation of the source, on a tree of 100 elements that are all 0, after
  \<open>update(0, 49, set 5)\<close> and then \<open>update(25, 74, add 3)\<close>, the queries over
  \<open>[0, 24]\<close>, \<open>[25, 49]\<close>, \<open>[50, 74]\<close> and \<open>[75, 99]\<close>, made one after the other, return
  minimum and maximum 5, 8, 3 and 0.
\<close>

theorem scenario_100:
  "bnd (SegTree_build MinMax 100 (replicate 100 0)) (\<lambda>s0.
   bnd (update_top MinMax 0 49 \<lparr>code = CHR ''s'', arg = 5\<rparr> s0) (\<lambda>s1.
   bnd (update_top MinMax 25 74 \<lparr>code = CHR ''a'', arg = 3\<rparr> s1) (\<lambda>s2.
   bnd (query_top MinMax 0 24 s2) (\<lambda>(s3, r1).
   bnd (query_top MinMax 25 49 s3) (\<lambda>(s4, r2).
   bnd (query_top MinMax 50 74 s4) (\<lambda>(s5, r3).
   bnd (query_top MinMax 75 99 s5) (\<lambda>(s6, r4).
   ok [r1, r2, r3, r4])))))))
   = ok [\<lparr>minVal = 5, maxVal = 5\<rparr>, \<lparr>minVal = 8, maxVal = 8\<rparr>,
         \<lparr>minVal = 3, maxVal = 3\<rparr>, \<lparr>minVal = 0, maxVal = 0\<rparr>]"
proof -
  note L = MinMax_laws
  let ?set = "\<lparr>code = CHR ''s'', arg = 5\<rparr>" and ?add = "\<lparr>code = CHR ''a'', arg = 3\<rparr>"
  have W: "set_or_add ?set" "set_or_add ?add" by (simp_all add: set_or_add_def)
  from SegTree_build_good [OF L, of 100 "replicate 100 0"]
  obtain s0 where s0: "SegTree_build MinMax 100 (replicate 100 0) = ok s0"
    and G0: "good MinMax set_or_add s0" and n0: "tsize s0 = 100"
    and e0: "\<And>x. 0 \<le> x \<Longrightarrow> x < 100 \<Longrightarrow> elem MinMax s0 x = \<lparr>minVal = 0, maxVal = 0\<rparr>"
    by (auto simp: Node_of_def)
  from update_top_good [OF L W(1) G0, of 0 49]
  obtain s1 where s1: "update_top MinMax 0 49 ?set s0 = ok s1"
    and G1: "good MinMax set_or_add s1" and n1: "tsize s1 = 100"
    and e1: "\<And>x. 0 \<le> x \<Longrightarrow> x < 100 \<Longrightarrow> elem MinMax s1 x =
               (if x \<le> 49 then \<lparr>minVal = 5, maxVal = 5\<rparr> else \<lparr>minVal = 0, maxVal = 0\<rparr>)"
    by (auto simp: n0 e0 Op_apply_def)
  from update_top_good [OF L W(2) G1, of 25 74]
  obtain s2 where s2: "update_top MinMax 25 74 ?add s1 = ok s2"
    and G2: "good MinMax set_or_add s2" and n2: "tsize s2 = 100"
    and e2': "\<And>x. 0 \<le> x \<Longrightarrow> x < 100 \<Longrightarrow> elem MinMax s2 x =
               (if 25 \<le> x \<and> x \<le> 74 then Op_apply ?add (elem MinMax s1 x) x x else elem MinMax s1 x)"
    by (auto simp: n1)
  have e2: "elem MinMax s2 x =
      (if x \<le> 24 then \<lparr>minVal = 5, maxVal = 5\<rparr> else if x \<le> 49 then \<lparr>minVal = 8, maxVal = 8\<rparr>
       else if x \<le> 74 then \<lparr>minVal = 3, maxVal = 3\<rparr> else \<lparr>minVal = 0, maxVal = 0\<rparr>)"
    if "0 \<le> x" "x < 100" for x
    using that by (simp add: e2' e1 Op_apply_def)
  have N: "neutral MinMax (elem MinMax s x)"
    if "\<And>y. 0 \<le> y \<Longrightarrow> y < 100 \<Longrightarrow> elem MinMax s y = elem MinMax s2 y" "0 \<le> x" "x < 100" for s x
    using that by (simp add: e2 MinMax_neutral INF_int_def)
  have A: "agg MinMax (elem MinMax s) a b = c"
    if "\<And>y. 0 \<le> y \<Longrightarrow> y < 100 \<Longrightarrow> elem MinMax s y = elem MinMax s2 y"
      "0 \<le> a" "a \<le> b" "b < 100" "Node_join c c = c"
      "\<And>x. a \<le> x \<Longrightarrow> x \<le> b \<Longrightarrow> elem MinMax s2 x = c" for s a b c
    using that by (intro agg_const) auto
  from query_top_value [OF L G2, of 0 24] N [of s2]
  obtain s3 where s3: "query_top MinMax 0 24 s2 = ok (s3, agg MinMax (elem MinMax s2) 0 24)"
    and G3: "good MinMax set_or_add s3" and n3: "tsize s3 = 100"
    and e3: "\<And>x. 0 \<le> x \<Longrightarrow> x < 100 \<Longrightarrow> elem MinMax s3 x = elem MinMax s2 x"
    by (auto simp: n2)
  have r1: "agg MinMax (elem MinMax s2) 0 24 = \<lparr>minVal = 5, maxVal = 5\<rparr>"
    by (rule A) (simp_all add: e2 Node_join_def)
  from query_top_value [OF L G3, of 25 49] N [of s3] e3
  obtain s4 where s4: "query_top MinMax 25 49 s3 = ok (s4, agg MinMax (elem MinMax s3) 25 49)"
    and G4: "good MinMax set_or_add s4" and n4: "tsize s4 = 100"
    and e4: "\<And>x. 0 \<le> x \<Longrightarrow> x < 100 \<Longrightarrow> elem MinMax s4 x = elem MinMax s2 x"
    by (auto simp: n3)
  have r2: "agg MinMax (elem MinMax s3) 25 49 = \<lparr>minVal = 8, maxVal = 8\<rparr>"
    by (rule A) (simp_all add: e3 e2 Node_join_def)
  from query_top_value [OF L G4, of 50 74] N [of s4] e4
  obtain s5 where s5: "query_top MinMax 50 74 s4 = ok (s5, agg MinMax (elem MinMax s4) 50 74)"
    and G5: "good MinMax set_or_add s5" and n5: "tsize s5 = 100"
    and e5: "\<And>x. 0 \<le> x \<Longrightarrow> x < 100 \<Longrightarrow> elem MinMax s5 x = elem MinMax s2 x"
    by (auto simp: n4)
  have r3: "agg MinMax (elem MinMax s4) 50 74 = \<lparr>minVal = 3, maxVal = 3\<rparr>"
    by (rule A) (simp_all add: e4 e2 Node_join_def)
  from query_top_value [OF L G5, of 75 99] N [of s5] e5
  obtain s6 where s6: "query_top MinMax 75 99 s5 = ok (s6, agg MinMax (elem MinMax s5) 75 99)"
    by (auto simp: n5)
  have r4: "agg MinMax (elem MinMax s5) 75 99 = \<lparr>minVal = 0, maxVal = 0\<rparr>"
    by (rule A) (simp_all add: e5 e2 Node_join_def)
  show ?thesis
    by (simp add: s0 s1 s2 s3 s4 s5 s6 r1 r2 r3 r4)
qed

subsection \<open>No access outside the vectors\<close>

text \<open>
  C10 (as amended). For every \<open>n\<close> with \<open>1 \<le> n < 2 ^ 29\<close> (the sizes for which
  \<^verbatim>\<open>4 * n + 1\<close> fits the 32-bit \<^verbatim>\<open>int\<close>), the construction from a seed of at least \<open>n\<close>
  elements, and every query and update with \<open>0 \<le> i \<le> j < n\<close> on a tree whose three
  vectors have the allocated \<open>4 * n + 1\<close> entries, return normally: no access of \<open>tree\<close>,
  \<open>pending\<close>, \<open>hasPending\<close> or the seed is outside its bounds (such an access is the
  outcome \<open>OutOfBounds\<close>), and the vectors keep their size. This holds for any template
  parameters and any contents of the vectors.
\<close>

theorem no_out_of_bounds:
  "(1 \<le> n \<and> n < 536870912 \<and> n \<le> int (length arr) \<longrightarrow>
      (\<exists>s. SegTree_build A n arr = ok s \<and> tsize s = n \<and> lens (nat (4 * n + 1)) s)) \<and>
   (1 \<le> tsize s \<and> tsize s < 536870912 \<and> lens (nat (4 * tsize s + 1)) s \<and>
    0 \<le> i \<and> i \<le> j \<and> j < tsize s \<longrightarrow>
      (\<exists>s' r. query_top A i j s = ok (s', r) \<and> tsize s' = tsize s \<and>
               lens (nat (4 * tsize s + 1)) s') \<and>
      (\<exists>s'. update_top A i j u s = ok s' \<and> tsize s' = tsize s \<and>
               lens (nat (4 * tsize s + 1)) s'))"
proof (intro conjI impI)
  assume "1 \<le> n \<and> n < 536870912 \<and> n \<le> int (length arr)"
  then show "\<exists>s. SegTree_build A n arr = ok s \<and> tsize s = n \<and> lens (nat (4 * n + 1)) s"
    using SegTree_build_ok by blast
next
  assume a: "1 \<le> tsize s \<and> tsize s < 536870912 \<and> lens (nat (4 * tsize s + 1)) s \<and>
    0 \<le> i \<and> i \<le> j \<and> j < tsize s"
  then have P: "pos (nat (4 * tsize s + 1)) 1 0 (tsize s - 1)" using pos_root by blast
  from query_ok [OF P, of s A i j] a
  show "\<exists>s' r. query_top A i j s = ok (s', r) \<and> tsize s' = tsize s \<and>
               lens (nat (4 * tsize s + 1)) s'"
    unfolding query_top_def by blast
  from update_ok [OF P, of s A i j u] a
  show "\<exists>s'. update_top A i j u s = ok s' \<and> tsize s' = tsize s \<and>
               lens (nat (4 * tsize s + 1)) s'"
    unfolding update_top_def by blast
qed

theorem no_out_of_bounds_witness:
  "(\<exists>s. SegTree_build MinMax 4 [3, 1, 4, 1] = ok s \<and> tsize s = 4 \<and> lens 17 s) \<and>
   (\<exists>s' r. query_top MinMax 1 2 t4 = ok (s', r) \<and> tsize s' = 4 \<and> lens 17 s') \<and>
   (\<exists>s'. update_top MinMax 1 2 \<lparr>code = CHR ''a'', arg = 10\<rparr> t4 = ok s' \<and> tsize s' = 4 \<and> lens 17 s')"
  using no_out_of_bounds [of 4 "[3, 1, 4, 1]" MinMax t4 1 2 "\<lparr>code = CHR ''a'', arg = 10\<rparr>"] lens_t4
  by (simp add: t4_def)

text \<open>
  For \<open>n = 2 ^ 30\<close> the size \<^verbatim>\<open>4 * n + 1\<close> wraps around to 1: the three vectors have one
  entry each, and the construction, from a seed of \<open>n\<close> elements, writes outside
  \<open>tree\<close>.
\<close>

theorem no_out_of_bounds_counterexample:
  "SegTree_init MinMax 1073741824
     = ok \<lparr>tsize = 1073741824, tree = [Node_new], hasPending = [False], pending = [Op_new]\<rparr> \<and>
   SegTree_build MinMax 1073741824 (replicate 1073741824 0) = fail OutOfBounds"
proof -
  let ?s0 = "\<lparr>tsize = 1073741824, tree = [Node_new], hasPending = [False], pending = [Op_new]\<rparr>"
  have i: "SegTree_init MinMax 1073741824 = ok ?s0"
    by (simp add: SegTree_init_def int32_def)
  have "build MinMax (replicate 1073741824 0) 1 0 (1073741824 - 1) ?s0 = fail OutOfBounds"
    by (rule build_leftmost_fail) simp_all
  then have "SegTree_build MinMax 1073741824 (replicate 1073741824 0) = fail OutOfBounds"
    by (simp add: SegTree_build_def i build_top_def)
  with i show ?thesis by (rule conjI)
qed

subsection \<open>Termination and the number of calls\<close>

text \<open>
  C8. For \<open>n \<ge> 1\<close> the construction returns (with \<open>2 * n - 1\<close> calls of \<open>build\<close>), and
  on a tree of \<open>n\<close> elements every query and update with \<open>0 \<le> i \<le> j < n\<close> returns; the
  calls it makes (of \<open>query\<close>, \<open>update\<close> and \<open>applyPending\<close>) are at most \<open>10 * h + 1\<close>
  for any \<open>h\<close> with \<open>n \<le> 2 ^ h\<close>, that is at most \<open>10 * \<lceil>log\<^sub>2 n\<rceil> + 1\<close>.
\<close>

theorem terminates_log_calls:
  "(1 \<le> n \<and> n \<le> int (length arr) \<longrightarrow>
      (\<exists>r. SegTree_build A n arr = Some r) \<and> T_build 0 (n - 1) = Some (2 * nat n - 1)) \<and>
   (1 \<le> tsize s \<and> lens (nat (4 * tsize s + 1)) s \<and> 0 \<le> i \<and> i \<le> j \<and> j < tsize s \<longrightarrow>
      (\<exists>r. query_top A i j s = Some r) \<and> (\<exists>r. update_top A i j u s = Some r) \<and>
      (\<forall>h. tsize s \<le> 2 ^ h \<longrightarrow>
         (\<exists>t. T_query 0 (tsize s - 1) i j = Some t \<and> t \<le> 10 * h + 1) \<and>
         (\<exists>t. T_update 0 (tsize s - 1) i j = Some t \<and> t \<le> 10 * h + 1)))"
proof (intro conjI impI allI)
  assume a: "1 \<le> n \<and> n \<le> int (length arr)"
  then show "\<exists>r. SegTree_build A n arr = Some r"
    using SegTree_build_Some [of n A arr] by simp
  from a T_build_eq [of 0 "n - 1"] show "T_build 0 (n - 1) = Some (2 * nat n - 1)" by simp
next
  assume a: "1 \<le> tsize s \<and> lens (nat (4 * tsize s + 1)) s \<and> 0 \<le> i \<and> i \<le> j \<and> j < tsize s"
  then have P: "pos (nat (4 * tsize s + 1)) 1 0 (tsize s - 1)" using pos_root by blast
  from query_ok [OF P, of s A i j] a show "\<exists>r. query_top A i j s = Some r"
    unfolding query_top_def ok_def by blast
  from update_ok [OF P, of s A i j u] a show "\<exists>r. update_top A i j u s = Some r"
    unfolding update_top_def ok_def by blast
next
  fix h :: nat
  assume a: "1 \<le> tsize s \<and> lens (nat (4 * tsize s + 1)) s \<and> 0 \<le> i \<and> i \<le> j \<and> j < tsize s"
    and h: "tsize s \<le> 2 ^ h"
  from a h show "\<exists>t. T_query 0 (tsize s - 1) i j = Some t \<and> t \<le> 10 * h + 1"
    by (intro T_query_bound) auto
  from a h show "\<exists>t. T_update 0 (tsize s - 1) i j = Some t \<and> t \<le> 10 * h + 1"
    by (intro T_update_bound) auto
qed

theorem terminates_log_calls_witness:
  "((\<exists>r. SegTree_build MinMax 4 [3, 1, 4, 1] = Some r) \<and> T_build 0 3 = Some 7) \<and>
   (\<exists>r. query_top MinMax 1 2 t4 = Some r) \<and>
   (\<exists>r. update_top MinMax 1 2 \<lparr>code = CHR ''a'', arg = 10\<rparr> t4 = Some r) \<and>
   (\<exists>t. T_query 0 3 1 2 = Some t \<and> t \<le> 21) \<and> (\<exists>t. T_update 0 3 1 2 = Some t \<and> t \<le> 21)"
proof -
  note t = terminates_log_calls [of 4 "[3, 1, 4, 1]" MinMax t4 1 2 "\<lparr>code = CHR ''a'', arg = 10\<rparr>"]
  have a: "1 \<le> tsize t4 \<and> lens (nat (4 * tsize t4 + 1)) t4 \<and> (0::int) \<le> 1 \<and> (1::int) \<le> 2 \<and> 2 < tsize t4"
    using lens_t4 by (simp add: t4_def)
  have n: "tsize t4 = 4" by (simp add: t4_def)
  from t have 1: "(\<exists>r. SegTree_build MinMax 4 [3, 1, 4, 1] = Some r) \<and> T_build 0 3 = Some 7" by simp
  from t a have 2: "(\<exists>r. query_top MinMax 1 2 t4 = Some r) \<and>
      (\<exists>r. update_top MinMax 1 2 \<lparr>code = CHR ''a'', arg = 10\<rparr> t4 = Some r)" by blast
  from t a have "\<forall>h. tsize t4 \<le> 2 ^ h \<longrightarrow>
         (\<exists>t. T_query 0 (tsize t4 - 1) 1 2 = Some t \<and> t \<le> 10 * h + 1) \<and>
         (\<exists>t. T_update 0 (tsize t4 - 1) 1 2 = Some t \<and> t \<le> 10 * h + 1)" by blast
  from this [rule_format, of 2] have 3: "(\<exists>t. T_query 0 3 1 2 = Some t \<and> t \<le> 21) \<and>
      (\<exists>t. T_update 0 3 1 2 = Some t \<and> t \<le> 21)" by (simp add: n)
  from 1 2 3 show ?thesis by blast
qed

subsection \<open>A query keeps the logical content\<close>

text \<open>
  C9 (as amended). For template parameters satisfying \<open>laws\<close> and a tree reached from a
  construction by updates of \<open>W\<close> and queries, a query \<open>query(i, j)\<close> returns; repeated
  any number of times it returns the same result each time; every query returns the same
  result on the tree after the query as on the tree before it; and every update of \<open>W\<close>
  (in the instantiation: code \<open>s\<close> or \<open>a\<close>) leaves the two trees with the same logical
  content, hence with the same results of all later queries.
\<close>

theorem query_keeps_content:
  assumes "laws A W" "reachable A W s"
  shows "\<exists>s1 r. query_top A i j s = ok (s1, r) \<and>
           (\<forall>k. \<exists>t. query_times A k i j s = ok (t, replicate k r)) \<and>
           (\<forall>a b. \<exists>t t1 q. query_top A a b s = ok (t, q) \<and> query_top A a b s1 = ok (t1, q)) \<and>
           (\<forall>a b u. W u \<longrightarrow>
              (\<exists>t t1. update_top A a b u s = ok t \<and> update_top A a b u s1 = ok t1 \<and>
                 same_content A t t1 \<and>
                 (\<forall>c d. \<exists>w w1 q. query_top A c d t = ok (w, q) \<and> query_top A c d t1 = ok (w1, q))))"
proof -
  note L = assms(1)
  have G: "good A W s" using reachable_good [OF assms] .
  from query_top_content [OF L G, of i j]
  obtain s1 where s1: "query_top A i j s = ok (s1, decomp A (elem A s) 0 (tsize s - 1) i j)"
    "good A W s1" "same_content A s s1" by blast
  have 1: "\<forall>k. \<exists>t. query_times A k i j s = ok (t, replicate k (decomp A (elem A s) 0 (tsize s - 1) i j))"
    using query_times_content [OF L G] by blast
  have 2: "\<forall>a b. \<exists>t t1 q. query_top A a b s = ok (t, q) \<and> query_top A a b s1 = ok (t1, q)"
    using query_same_content [OF L G s1(2,3)] by blast
  have 3: "\<forall>a b u. W u \<longrightarrow>
              (\<exists>t t1. update_top A a b u s = ok t \<and> update_top A a b u s1 = ok t1 \<and>
                 same_content A t t1 \<and>
                 (\<forall>c d. \<exists>w w1 q. query_top A c d t = ok (w, q) \<and> query_top A c d t1 = ok (w1, q)))"
  proof (intro allI impI)
    fix a b u assume u: "W u"
    from update_same_content [OF L u G s1(2,3), of a b]
    obtain t t1 where t: "update_top A a b u s = ok t" "update_top A a b u s1 = ok t1"
      "good A W t" "good A W t1" "same_content A t t1" by blast
    have "\<forall>c d. \<exists>w w1 q. query_top A c d t = ok (w, q) \<and> query_top A c d t1 = ok (w1, q)"
      using query_same_content [OF L t(3,4,5)] by blast
    with t show "\<exists>t t1. update_top A a b u s = ok t \<and> update_top A a b u s1 = ok t1 \<and>
                 same_content A t t1 \<and>
                 (\<forall>c d. \<exists>w w1 q. query_top A c d t = ok (w, q) \<and> query_top A c d t1 = ok (w1, q))"
      by blast
  qed
  from s1(1) 1 2 3 show ?thesis by blast
qed

text \<open>
  The witness is the query over \<open>[0, 0]\<close> on \<open>z2_set\<close>, which pushes the pending update
  of the root down to the leaves: the tree after the query is \<open>z2_pushed\<close>, in which
  position 2 holds 5 instead of 0.
\<close>

theorem query_keeps_content_witness:
  "query_top MinMax 0 0 z2_set = ok (z2_pushed, \<lparr>minVal = 5, maxVal = 5\<rparr>) \<and>
   tree z2_set ! 2 = \<lparr>minVal = 0, maxVal = 0\<rparr> \<and>
   tree z2_pushed ! 2 = \<lparr>minVal = 5, maxVal = 5\<rparr> \<and>
   (\<forall>k. \<exists>t. query_times MinMax k 0 0 z2_set = ok (t, replicate k \<lparr>minVal = 5, maxVal = 5\<rparr>)) \<and>
   (\<forall>a b. \<exists>t t1 q. query_top MinMax a b z2_set = ok (t, q) \<and>
                     query_top MinMax a b z2_pushed = ok (t1, q)) \<and>
   (\<exists>t t1. update_top MinMax 0 1 \<lparr>code = CHR ''a'', arg = 3\<rparr> z2_set = ok t \<and>
            update_top MinMax 0 1 \<lparr>code = CHR ''a'', arg = 3\<rparr> z2_pushed = ok t1 \<and>
            same_content MinMax t t1 \<and>
            (\<forall>c d. \<exists>w w1 q. query_top MinMax c d t = ok (w, q) \<and> query_top MinMax c d t1 = ok (w1, q)))"
proof -
  have q: "query_top MinMax 0 0 z2_set = ok (z2_pushed, \<lparr>minVal = 5, maxVal = 5\<rparr>)"
    by (simp add: eval_simps z2_set_def z2_pushed_def numeral_eq_Suc)
  have d: "tree z2_set ! 2 = \<lparr>minVal = 0, maxVal = 0\<rparr>"
    "tree z2_pushed ! 2 = \<lparr>minVal = 5, maxVal = 5\<rparr>"
    by (simp_all add: z2_set_def z2_pushed_def Node_of_def numeral_eq_Suc)
  have u: "set_or_add \<lparr>code = CHR ''a'', arg = 3\<rparr>" by (simp add: set_or_add_def)
  from query_keeps_content [OF MinMax_laws reachable_z2_set, of 0 0]
  obtain s1 r where s1: "query_top MinMax 0 0 z2_set = ok (s1, r)"
    and 1: "\<forall>k. \<exists>t. query_times MinMax k 0 0 z2_set = ok (t, replicate k r)"
    and 2: "\<forall>a b. \<exists>t t1 q. query_top MinMax a b z2_set = ok (t, q) \<and>
                            query_top MinMax a b s1 = ok (t1, q)"
    and 3: "\<forall>a b u. set_or_add u \<longrightarrow>
      (\<exists>t t1. update_top MinMax a b u z2_set = ok t \<and> update_top MinMax a b u s1 = ok t1 \<and>
         same_content MinMax t t1 \<and>
         (\<forall>c d. \<exists>w w1 q. query_top MinMax c d t = ok (w, q) \<and> query_top MinMax c d t1 = ok (w1, q)))"
    by (elim exE conjE)
  from s1 have e: "s1 = z2_pushed" "r = \<lparr>minVal = 5, maxVal = 5\<rparr>"
    by (simp_all only: q ok_inject prod.inject)
  have 4: "\<exists>t t1. update_top MinMax 0 1 \<lparr>code = CHR ''a'', arg = 3\<rparr> z2_set = ok t \<and>
            update_top MinMax 0 1 \<lparr>code = CHR ''a'', arg = 3\<rparr> s1 = ok t1 \<and>
            same_content MinMax t t1 \<and>
            (\<forall>c d. \<exists>w w1 q. query_top MinMax c d t = ok (w, q) \<and> query_top MinMax c d t1 = ok (w1, q))"
    by (rule 3 [THEN spec, THEN spec, THEN spec, THEN mp, OF u])
  from q d 1 2 4 show ?thesis unfolding e by (intro conjI)
qed

text \<open>
  With an update outside \<open>W\<close> the claim fails in the instantiation of the source: on
  \<open>z2_set\<close> (the tree of two zeros after \<open>update(0, 1, set 5)\<close>),
  \<open>update(0, 1, Op('n', 3))\<close> followed by \<open>query(0, 0)\<close> returns 8, and the same two
  calls made after a first \<open>query(0, 0)\<close> return 5.
\<close>

theorem query_keeps_content_counterexample:
  "SegTree_build MinMax 2 [0, 0] = ok z2 \<and>
   update_top MinMax 0 1 \<lparr>code = CHR ''s'', arg = 5\<rparr> z2 = ok z2_set \<and>
   update_top MinMax 0 1 \<lparr>code = CHR ''n'', arg = 3\<rparr> z2_set = ok z2_set_n \<and>
   query_top MinMax 0 0 z2_set_n = ok (z2_set_n_q, \<lparr>minVal = 8, maxVal = 8\<rparr>) \<and>
   query_top MinMax 0 0 z2_set = ok (z2_pushed, \<lparr>minVal = 5, maxVal = 5\<rparr>) \<and>
   update_top MinMax 0 1 \<lparr>code = CHR ''n'', arg = 3\<rparr> z2_pushed = ok z2_pushed_n \<and>
   query_top MinMax 0 0 z2_pushed_n = ok (z2_pushed_n_q, \<lparr>minVal = 5, maxVal = 5\<rparr>)"
  by (simp add: eval_simps z2_def z2_set_def z2_pushed_def z2_set_n_def z2_set_n_q_def
      z2_pushed_n_def z2_pushed_n_q_def numeral_eq_Suc)

subsection \<open>The effect of an update on later queries\<close>

text \<open>What a query joins depends on the elements of the queried range only.\<close>

lemma decomp_local:
  "st \<le> en \<Longrightarrow> (\<And>x. st \<le> x \<Longrightarrow> x \<le> en \<Longrightarrow> i \<le> x \<Longrightarrow> x \<le> j \<Longrightarrow> f x = g x) \<Longrightarrow>
   decomp A f st en i j = decomp A g st en i j"
proof (induction A f st en i j rule: decomp.induct)
  case (1 A f st en i j)
  consider "j < st \<or> en < i" | "\<not> (j < st \<or> en < i)" "i \<le> st \<and> en \<le> j"
    | "\<not> (j < st \<or> en < i)" "\<not> (i \<le> st \<and> en \<le> j)" "0 \<le> st \<and> st < en"
    | "\<not> (j < st \<or> en < i)" "\<not> (i \<le> st \<and> en \<le> j)" "\<not> (0 \<le> st \<and> st < en)" by blast
  then show ?case
  proof cases
    case 1 then show ?thesis by (simp add: decomp_outside)
  next
    case 2
    have "agg A f st en = agg A g st en" using "1.prems" 2 by (intro agg_cong) auto
    with 2 show ?thesis by (simp add: decomp_contained)
  next
    case 3
    then have st: "0 \<le> st" "st < en" by auto
    from mid_bounds [OF st] have m: "st \<le> mid st en" "mid st en < en" by auto
    have l: "decomp A f st (mid st en) i j = decomp A g st (mid st en) i j"
      using 3 m "1.prems" by (intro "1.IH"(1)) auto
    have r: "decomp A f (mid st en + 1) en i j = decomp A g (mid st en + 1) en i j"
      using 3 m "1.prems" by (intro "1.IH"(2)) auto
    show ?thesis using 3(1,2) st by (simp add: decomp_partial l r)
  next
    case 4
    then show ?thesis by (subst decomp.simps, subst (2) decomp.simps) auto
  qed
qed

text \<open>
  C1 (as amended). For template parameters satisfying \<open>laws\<close>, a tree reached from a
  construction by updates of \<open>W\<close> and queries, an update \<open>u\<close> of \<open>W\<close> (in the
  instantiation: code \<open>s\<close> or \<open>a\<close>) and \<open>0 \<le> i \<le> j < n\<close>: after \<open>update(i, j, u)\<close> a
  query over a range of \<open>[0, n - 1]\<close> outside \<open>[i, j]\<close> returns what it returned before;
  and a query over a range \<open>[a, b]\<close> inside \<open>[i, j]\<close> returns \<open>op_apply u\<close> of what it
  returned before, provided that the default \<^verbatim>\<open>Node\<close> is neutral for the aggregate of
  every element of \<open>[a, b]\<close>, before the update and after it.
\<close>

theorem update_then_query:
  assumes L: "laws A W" and R: "reachable A W s" and u: "W u"
    and i: "0 \<le> i" "i \<le> j" "j < tsize s"
  shows "\<exists>s'. update_top A i j u s = ok s' \<and>
           (\<forall>a b. i \<le> a \<and> a \<le> b \<and> b \<le> j \<and>
                  (\<forall>x. a \<le> x \<and> x \<le> b \<longrightarrow>
                     neutral A (elem A s x) \<and> neutral A (op_apply A u (elem A s x) x x)) \<longrightarrow>
              (\<exists>t t' r. query_top A a b s = ok (t, r) \<and>
                         query_top A a b s' = ok (t', op_apply A u r a b))) \<and>
           (\<forall>a b. 0 \<le> a \<and> a \<le> b \<and> b < tsize s \<and> (b < i \<or> j < a) \<longrightarrow>
              (\<exists>t t' r. query_top A a b s = ok (t, r) \<and> query_top A a b s' = ok (t', r)))"
proof -
  have G: "good A W s" using reachable_good [OF L R] .
  then have n: "1 \<le> tsize s" by (simp add: good_def)
  from update_top_good [OF L u G, of i j]
  obtain s' where s': "update_top A i j u s = ok s'" and G': "good A W s'"
    and n': "tsize s' = tsize s"
    and e': "\<And>x. 0 \<le> x \<Longrightarrow> x < tsize s \<Longrightarrow>
              elem A s' x = (if i \<le> x \<and> x \<le> j then op_apply A u (elem A s x) x x else elem A s x)"
    by blast
  have inside: "\<exists>t t' r. query_top A a b s = ok (t, r) \<and>
                         query_top A a b s' = ok (t', op_apply A u r a b)"
    if ab: "i \<le> a" "a \<le> b" "b \<le> j"
      and N: "\<forall>x. a \<le> x \<and> x \<le> b \<longrightarrow>
                neutral A (elem A s x) \<and> neutral A (op_apply A u (elem A s x) x x)" for a b
  proof -
    have Ns': "neutral A (elem A s' x)" if "a \<le> x" "x \<le> b" for x
      using that ab i N by (simp add: e')
    from query_top_value [OF L G, of a b] ab i N
    obtain t where t: "query_top A a b s = ok (t, agg A (elem A s) a b)" by auto
    from query_top_value [OF L G', of a b] ab i Ns'
    obtain t' where t': "query_top A a b s' = ok (t', agg A (elem A s') a b)" by (auto simp: n')
    have "agg A (elem A s') a b = agg A (\<lambda>x. op_apply A u (elem A s x) x x) a b"
      using ab i by (intro agg_cong) (auto simp: e')
    also have "\<dots> = op_apply A u (agg A (elem A s) a b) a b"
      using ab u by (simp add: apply_agg [OF L])
    finally show ?thesis using t t' by auto
  qed
  have outside: "\<exists>t t' r. query_top A a b s = ok (t, r) \<and> query_top A a b s' = ok (t', r)"
    if ab: "0 \<le> a" "a \<le> b" "b < tsize s" "b < i \<or> j < a" for a b
  proof -
    from query_top_content [OF L G, of a b]
    obtain t where t: "query_top A a b s = ok (t, decomp A (elem A s) 0 (tsize s - 1) a b)"
      by blast
    from query_top_content [OF L G', of a b]
    obtain t' where t': "query_top A a b s' = ok (t', decomp A (elem A s') 0 (tsize s - 1) a b)"
      unfolding n' by blast
    have "decomp A (elem A s') 0 (tsize s - 1) a b = decomp A (elem A s) 0 (tsize s - 1) a b"
      using n ab by (intro decomp_local) (auto simp: e')
    with t t' show ?thesis by auto
  qed
  from s' inside outside show ?thesis by blast
qed

theorem update_then_query_witness:
  "\<exists>s'. update_top MinMax 1 2 \<lparr>code = CHR ''a'', arg = 10\<rparr> t4 = ok s' \<and>
     (\<exists>t t' r. query_top MinMax 1 2 t4 = ok (t, r) \<and>
        query_top MinMax 1 2 s' = ok (t', Op_apply \<lparr>code = CHR ''a'', arg = 10\<rparr> r 1 2)) \<and>
     (\<exists>t t' r. query_top MinMax 3 3 t4 = ok (t, r) \<and> query_top MinMax 3 3 s' = ok (t', r))"
proof -
  let ?u = "\<lparr>code = CHR ''a'', arg = 10\<rparr>"
  have u: "set_or_add ?u" by (simp add: set_or_add_def)
  have N: "\<forall>x. 1 \<le> x \<and> x \<le> 2 \<longrightarrow>
      neutral MinMax (elem MinMax t4 x) \<and> neutral MinMax (op_apply MinMax ?u (elem MinMax t4 x) x x)"
  proof (intro allI impI)
    fix x :: int assume x: "1 \<le> x \<and> x \<le> 2"
    then have "0 \<le> x" "x < 4" by auto
    from seed4 [OF this] elem_t4 [OF this]
    show "neutral MinMax (elem MinMax t4 x) \<and>
          neutral MinMax (op_apply MinMax ?u (elem MinMax t4 x) x x)"
      by (auto simp: MinMax_neutral Op_apply_def Node_of_def INF_int_def)
  qed
  have "(0::int) \<le> 1" "(1::int) \<le> 2" "2 < tsize t4" by (simp_all add: t4_def)
  from update_then_query [OF MinMax_laws reachable_t4 u this]
  obtain s' where s': "update_top MinMax 1 2 ?u t4 = ok s'"
    and a: "\<forall>a b. 1 \<le> a \<and> a \<le> b \<and> b \<le> 2 \<and>
                  (\<forall>x. a \<le> x \<and> x \<le> b \<longrightarrow>
                     neutral MinMax (elem MinMax t4 x) \<and>
                     neutral MinMax (op_apply MinMax ?u (elem MinMax t4 x) x x)) \<longrightarrow>
              (\<exists>t t' r. query_top MinMax a b t4 = ok (t, r) \<and>
                         query_top MinMax a b s' = ok (t', op_apply MinMax ?u r a b))"
    and b: "\<forall>a b. 0 \<le> a \<and> a \<le> b \<and> b < tsize t4 \<and> (b < 1 \<or> 2 < a) \<longrightarrow>
              (\<exists>t t' r. query_top MinMax a b t4 = ok (t, r) \<and> query_top MinMax a b s' = ok (t', r))"
    by (elim exE conjE)
  have t: "tsize t4 = 4" by (simp add: t4_def)
  from a [rule_format, of 1 2] N
  have 1: "\<exists>t t' r. query_top MinMax 1 2 t4 = ok (t, r) \<and>
        query_top MinMax 1 2 s' = ok (t', Op_apply ?u r 1 2)" by simp
  from b [rule_format, of 3 3]
  have 2: "\<exists>t t' r. query_top MinMax 3 3 t4 = ok (t, r) \<and> query_top MinMax 3 3 s' = ok (t', r)"
    by (simp add: t)
  from s' 1 2 show ?thesis by blast
qed

text \<open>
  Without the neutrality the claim fails in the instantiation of the source, where
  \<^verbatim>\<open>Node()\<close> holds the sentinels 1000000000 and -1000000000. Neutrality after the
  update is needed: on the seed 999999999, 0 the query over \<open>[0, 0]\<close> returns minimum
  999999999, and after \<open>update(0, 0, add 5)\<close> it returns minimum 1000000000, not
  1000000004. Neutrality before the update is needed: on the seed 2000000000, 2000000000
  the query over \<open>[0, 0]\<close> returns minimum 1000000000, and after
  \<open>update(0, 0, add -1500000000)\<close> it returns minimum 500000000, not -500000000.
\<close>

theorem update_then_query_counterexample:
  "SegTree_build MinMax 2 [999999999, 0] = ok big2 \<and>
   query_top MinMax 0 0 big2 = ok (big2, \<lparr>minVal = 999999999, maxVal = 999999999\<rparr>) \<and>
   update_top MinMax 0 0 \<lparr>code = CHR ''a'', arg = 5\<rparr> big2 = ok big2_added \<and>
   query_top MinMax 0 0 big2_added = ok (big2_added, \<lparr>minVal = 1000000000, maxVal = 1000000004\<rparr>) \<and>
   Op_apply \<lparr>code = CHR ''a'', arg = 5\<rparr> \<lparr>minVal = 999999999, maxVal = 999999999\<rparr> 0 0
     = \<lparr>minVal = 1000000004, maxVal = 1000000004\<rparr> \<and>
   SegTree_build MinMax 2 [2000000000, 2000000000] = ok huge2 \<and>
   query_top MinMax 0 0 huge2 = ok (huge2, \<lparr>minVal = 1000000000, maxVal = 2000000000\<rparr>) \<and>
   update_top MinMax 0 0 \<lparr>code = CHR ''a'', arg = - 1500000000\<rparr> huge2 = ok huge2_lowered \<and>
   query_top MinMax 0 0 huge2_lowered
     = ok (huge2_lowered, \<lparr>minVal = 500000000, maxVal = 500000000\<rparr>) \<and>
   Op_apply \<lparr>code = CHR ''a'', arg = - 1500000000\<rparr> \<lparr>minVal = 1000000000, maxVal = 2000000000\<rparr> 0 0
     = \<lparr>minVal = - 500000000, maxVal = 500000000\<rparr>"
  by (simp add: eval_simps big2_def big2_added_def huge2_def huge2_lowered_def numeral_eq_Suc)

subsection \<open>Queries of the parts of an interval\<close>

text \<open>
  C6 (as amended). For template parameters satisfying \<open>laws\<close>, a tree reached from a
  construction, \<open>0 \<le> i \<le> j < n\<close> and a partition of \<open>[i, j]\<close> into consecutive non-empty
  intervals: if the default \<^verbatim>\<open>Node\<close> is neutral for the aggregate of every element of
  \<open>[i, j]\<close>, the results of the queries of the parts, joined from left to right, are the
  result of \<open>query(i, j)\<close>.
\<close>

theorem partition_queries:
  assumes L: "laws A W" and R: "reachable A W s"
    and i: "0 \<le> i" "j < tsize s" and sp: "splits i j ivs"
    and N: "\<forall>x. i \<le> x \<and> x \<le> j \<longrightarrow> neutral A (elem A s x)"
  shows "\<exists>s1 rs s2 r. queries A ivs s = ok (s1, rs) \<and> query_top A i j s = ok (s2, r) \<and>
           join_all A rs = r"
proof -
  have G: "good A W s" using reachable_good [OF L R] .
  have ij: "i \<le> j" using sp by (induction i j ivs rule: splits.induct) auto
  from queries_join [OF L G sp i] N
  obtain s1 rs where "queries A ivs s = ok (s1, rs)" "join_all A rs = agg A (elem A s) i j"
    by blast
  moreover from query_top_value [OF L G i(1) ij i(2)] N
  obtain s2 where "query_top A i j s = ok (s2, agg A (elem A s) i j)" by blast
  ultimately show ?thesis by blast
qed

theorem partition_queries_witness:
  "\<exists>s1 rs s2 r. queries MinMax [(0, 0), (1, 2), (3, 3)] t4 = ok (s1, rs) \<and>
      query_top MinMax 0 3 t4 = ok (s2, r) \<and> join_all MinMax rs = r"
proof -
  have N: "\<forall>x. 0 \<le> x \<and> x \<le> 3 \<longrightarrow> neutral MinMax (elem MinMax t4 x)"
    using neutral_t4 by simp
  have "(0::int) \<le> 0" "3 < tsize t4" "splits 0 3 [(0, 0), (1, 2), (3, 3)]" by simp_all
  from partition_queries [OF MinMax_laws reachable_t4 this N] show ?thesis .
qed

text \<open>
  Without the neutrality the claim fails in the instantiation of the source: on the seed
  2000000000, 2000000000 the queries over \<open>[0, 0]\<close> and \<open>[1, 1]\<close> both return minimum
  1000000000 (the sentinel of \<^verbatim>\<open>Node()\<close>), and so does their join, while the query over
  \<open>[0, 1]\<close> returns minimum 2000000000.
\<close>

theorem partition_queries_counterexample:
  "SegTree_build MinMax 2 [2000000000, 2000000000] = ok huge2 \<and>
   splits 0 1 [(0, 0), (1, 1)] \<and>
   queries MinMax [(0, 0), (1, 1)] huge2
     = ok (huge2, [\<lparr>minVal = 1000000000, maxVal = 2000000000\<rparr>,
                   \<lparr>minVal = 1000000000, maxVal = 2000000000\<rparr>]) \<and>
   join_all MinMax [\<lparr>minVal = 1000000000, maxVal = 2000000000\<rparr>,
                    \<lparr>minVal = 1000000000, maxVal = 2000000000\<rparr>]
     = \<lparr>minVal = 1000000000, maxVal = 2000000000\<rparr> \<and>
   query_top MinMax 0 1 huge2 = ok (huge2, \<lparr>minVal = 2000000000, maxVal = 2000000000\<rparr>)"
  by (simp add: eval_simps huge2_def join_all_def numeral_eq_Suc)

subsection \<open>Intervals outside the tree\<close>

text \<open>
  C3 (as amended). The entry points do not validate the interval, and no call fails for
  its interval. For any template parameters, on a tree of \<open>n\<close> elements,
  \<open>1 \<le> n < 2 ^ 29\<close>, with its vectors of \<open>4 * n + 1\<close> entries, \<open>query(i, j)\<close> and
  \<open>update(i, j, u)\<close> with any \<open>i\<close>, \<open>j\<close> return normally; and when \<open>[i, j]\<close> lies wholly
  below 0 or above \<open>n - 1\<close> they leave the state of the tree as it is, the query
  returning the default \<^verbatim>\<open>Node\<close>. For template parameters satisfying \<open>laws\<close> and a tree
  reached from a construction by updates of \<open>W\<close> and queries, \<open>query(i, j)\<close> keeps the
  logical content and (the default \<^verbatim>\<open>Node\<close> being neutral for the elements concerned)
  returns the aggregate of the elements of \<open>[i, j]\<close> that lie in \<open>[0, n - 1]\<close>, the
  default \<^verbatim>\<open>Node\<close> if there are none; and \<open>update(i, j, u)\<close> with an update \<open>u\<close> of \<open>W\<close>
  (in the instantiation: code \<open>s\<close> or \<open>a\<close>) applies \<open>u\<close> to exactly those elements.
\<close>

theorem unchecked_interval:
  "(1 \<le> tsize s \<and> tsize s < 536870912 \<and> lens (nat (4 * tsize s + 1)) s \<longrightarrow>
      (\<exists>s' r. query_top A i j s = ok (s', r) \<and> tsize s' = tsize s \<and>
               lens (nat (4 * tsize s + 1)) s') \<and>
      (\<exists>s'. update_top A i j u s = ok s' \<and> tsize s' = tsize s \<and>
               lens (nat (4 * tsize s + 1)) s')) \<and>
   (j < 0 \<or> tsize s \<le> i \<longrightarrow>
      query_top A i j s = ok (s, Node_default A) \<and> update_top A i j u s = ok s) \<and>
   (laws A W \<and> reachable A W s \<longrightarrow>
      (\<exists>s' r. query_top A i j s = ok (s', r) \<and> same_content A s s' \<and>
         ((\<forall>x. max 0 i \<le> x \<and> x \<le> min (tsize s - 1) j \<longrightarrow> neutral A (elem A s x)) \<longrightarrow>
            r = range_agg A (elem A s) (max 0 i) (min (tsize s - 1) j)))) \<and>
   (laws A W \<and> reachable A W s \<and> W u \<longrightarrow>
      (\<exists>s'. update_top A i j u s = ok s' \<and> tsize s' = tsize s \<and>
         (\<forall>x. 0 \<le> x \<and> x < tsize s \<longrightarrow>
            elem A s' x = (if i \<le> x \<and> x \<le> j then op_apply A u (elem A s x) x x
                           else elem A s x))))"
proof (intro conjI impI)
  assume a: "1 \<le> tsize s \<and> tsize s < 536870912 \<and> lens (nat (4 * tsize s + 1)) s"
  then have P: "pos (nat (4 * tsize s + 1)) 1 0 (tsize s - 1)" using pos_root by blast
  from query_ok [OF P, of s A i j] a
  show "\<exists>s' r. query_top A i j s = ok (s', r) \<and> tsize s' = tsize s \<and>
               lens (nat (4 * tsize s + 1)) s'"
    unfolding query_top_def by blast
  from update_ok [OF P, of s A i j u] a
  show "\<exists>s'. update_top A i j u s = ok s' \<and> tsize s' = tsize s \<and>
               lens (nat (4 * tsize s + 1)) s'"
    unfolding update_top_def by blast
next
  assume "j < 0 \<or> tsize s \<le> i"
  then have "j < 0 \<or> tsize s - 1 < i" by auto
  then show "query_top A i j s = ok (s, Node_default A)"
    unfolding query_top_def by (rule query_outside)
next
  assume "j < 0 \<or> tsize s \<le> i"
  then have "j < 0 \<or> tsize s - 1 < i" by auto
  then show "update_top A i j u s = ok s"
    unfolding update_top_def by (rule update_outside)
next
  assume a: "laws A W \<and> reachable A W s"
  then have L: "laws A W" and R: "reachable A W s" by simp_all
  have G: "good A W s" using reachable_good [OF L R] .
  then have n: "1 \<le> tsize s" by (simp add: good_def)
  from query_top_content [OF L G, of i j]
  obtain s' where s': "query_top A i j s = ok (s', decomp A (elem A s) 0 (tsize s - 1) i j)"
    "same_content A s s'" by blast
  have "decomp A (elem A s) 0 (tsize s - 1) i j
          = range_agg A (elem A s) (max 0 i) (min (tsize s - 1) j)"
    if "\<forall>x. max 0 i \<le> x \<and> x \<le> min (tsize s - 1) j \<longrightarrow> neutral A (elem A s x)"
    using that n by (intro decomp_range_agg [OF L]) auto
  with s' show "\<exists>s' r. query_top A i j s = ok (s', r) \<and> same_content A s s' \<and>
         ((\<forall>x. max 0 i \<le> x \<and> x \<le> min (tsize s - 1) j \<longrightarrow> neutral A (elem A s x)) \<longrightarrow>
            r = range_agg A (elem A s) (max 0 i) (min (tsize s - 1) j))"
    by blast
next
  assume a: "laws A W \<and> reachable A W s \<and> W u"
  then have L: "laws A W" and R: "reachable A W s" and u: "W u" by simp_all
  have G: "good A W s" using reachable_good [OF L R] .
  from update_top_good [OF L u G, of i j]
  show "\<exists>s'. update_top A i j u s = ok s' \<and> tsize s' = tsize s \<and>
         (\<forall>x. 0 \<le> x \<and> x < tsize s \<longrightarrow>
            elem A s' x = (if i \<le> x \<and> x \<le> j then op_apply A u (elem A s x) x x
                           else elem A s x))"
    by blast
qed

theorem unchecked_interval_witness:
  "((\<exists>s' r. query_top MinMax (- 1) 5 t4 = ok (s', r) \<and> tsize s' = 4 \<and> lens 17 s') \<and>
    (\<exists>s'. update_top MinMax (- 1) 5 \<lparr>code = CHR ''s'', arg = 9\<rparr> t4 = ok s' \<and> tsize s' = 4 \<and>
           lens 17 s')) \<and>
   (\<exists>s'. query_top MinMax (- 1) 5 t4 = ok (s', range_agg MinMax (elem MinMax t4) 0 3) \<and>
          same_content MinMax t4 s') \<and>
   (\<exists>s'. update_top MinMax (- 1) 5 \<lparr>code = CHR ''s'', arg = 9\<rparr> t4 = ok s' \<and> tsize s' = 4 \<and>
          elem MinMax s' 2 = Op_apply \<lparr>code = CHR ''s'', arg = 9\<rparr> (elem MinMax t4 2) 2 2) \<and>
   query_top MinMax 4 9 t4 = ok (t4, Node_new) \<and>
   update_top MinMax 4 9 \<lparr>code = CHR ''s'', arg = 9\<rparr> t4 = ok t4"
proof -
  let ?u = "\<lparr>code = CHR ''s'', arg = 9\<rparr>"
  have u: "set_or_add ?u" by (simp add: set_or_add_def)
  have t: "tsize t4 = 4" by (simp add: t4_def)
  note a = unchecked_interval [of t4 MinMax "- 1" 5 ?u set_or_add]
  note b = unchecked_interval [of t4 MinMax 4 9 ?u set_or_add]
  note a1 = a [THEN conjunct1] and a3 = a [THEN conjunct2, THEN conjunct2, THEN conjunct1]
    and a4 = a [THEN conjunct2, THEN conjunct2, THEN conjunct2]
    and b2 = b [THEN conjunct2, THEN conjunct1]
  have N: "\<forall>x. max 0 (- 1) \<le> x \<and> x \<le> min (tsize t4 - 1) 5 \<longrightarrow> neutral MinMax (elem MinMax t4 x)"
    using neutral_t4 by (simp add: t)
  from a1 lens_t4 have 0: "(\<exists>s' r. query_top MinMax (- 1) 5 t4 = ok (s', r) \<and> tsize s' = 4 \<and> lens 17 s') \<and>
    (\<exists>s'. update_top MinMax (- 1) 5 ?u t4 = ok s' \<and> tsize s' = 4 \<and> lens 17 s')"
    by (simp add: t)
  from a3 MinMax_laws reachable_t4
  obtain s' r where q: "query_top MinMax (- 1) 5 t4 = ok (s', r)" "same_content MinMax t4 s'"
    and r: "(\<forall>x. max 0 (- 1) \<le> x \<and> x \<le> min (tsize t4 - 1) 5 \<longrightarrow> neutral MinMax (elem MinMax t4 x)) \<longrightarrow>
            r = range_agg MinMax (elem MinMax t4) (max 0 (- 1)) (min (tsize t4 - 1) 5)"
    by blast
  from r N have "r = range_agg MinMax (elem MinMax t4) (max 0 (- 1)) (min (tsize t4 - 1) 5)"
    by (rule mp)
  then have "r = range_agg MinMax (elem MinMax t4) 0 3" by (simp add: t)
  with q have 1: "\<exists>s'. query_top MinMax (- 1) 5 t4 = ok (s', range_agg MinMax (elem MinMax t4) 0 3) \<and>
          same_content MinMax t4 s'" by blast
  from a4 MinMax_laws reachable_t4 u
  have 2: "\<exists>s'. update_top MinMax (- 1) 5 ?u t4 = ok s' \<and> tsize s' = 4 \<and>
          elem MinMax s' 2 = Op_apply ?u (elem MinMax t4 2) 2 2" by (auto simp: t)
  from b2 have 3: "query_top MinMax 4 9 t4 = ok (t4, Node_new) \<and> update_top MinMax 4 9 ?u t4 = ok t4"
    by (simp add: t)
  show ?thesis by (rule conjI [OF 0 conjI [OF 1 conjI [OF 2 3]]])
qed

text \<open>
  On the tree of 4 elements built from 3, 1, 4, 1, \<open>query(-1, 5)\<close> and \<open>query(3, 200)\<close>
  return the aggregates of \<open>[0, 3]\<close> and \<open>[3, 3]\<close>; they do not fail.
\<close>

theorem unchecked_interval_counterexample:
  "query_top MinMax (- 1) 5 t4 = ok (t4, \<lparr>minVal = 1, maxVal = 4\<rparr>) \<and>
   query_top MinMax 3 200 t4 = ok (t4, \<lparr>minVal = 1, maxVal = 1\<rparr>)"
  by (simp add: eval_simps t4_def numeral_eq_Suc)

subsection \<open>Construction\<close>

text \<open>
  C7 (as amended). The constructor does not validate its arguments. For
  \<open>- 2 ^ 29 \<le> n < 0\<close> the size \<^verbatim>\<open>4 * n + 1\<close> is negative and the constructor fails, in
  \<^verbatim>\<open>vector::resize\<close>, with a length error. For \<open>1 \<le> n < 2 ^ 29\<close> (the sizes for which
  \<^verbatim>\<open>4 * n + 1\<close> fits the 32-bit \<^verbatim>\<open>int\<close>) and a seed of at least \<open>n\<close> elements (more are
  allowed and ignored) it returns a tree of size \<open>n\<close> in which every position holds the
  aggregate made by halving its range down to single elements; when the join is
  associative (\<open>laws\<close>) this is the join of the single-element nodes of the range from
  left to right.
\<close>

theorem construction:
  "(- 536870912 \<le> n \<and> n < 0 \<longrightarrow> SegTree_build A n arr = fail LengthError) \<and>
   (1 \<le> n \<and> n < 536870912 \<and> n \<le> int (length arr) \<longrightarrow>
      (\<exists>s. SegTree_build A n arr = ok s \<and> tsize s = n \<and>
           (\<forall>node st en. position n node st en \<longrightarrow> tree s ! nat node = built A arr st en))) \<and>
   (laws A W \<and> 0 \<le> st \<and> st \<le> en \<longrightarrow>
      built A arr st en = agg A (\<lambda>x. Node_leaf A x (arr ! nat x)) st en)"
proof (intro conjI impI)
  assume n: "- 536870912 \<le> n \<and> n < 0"
  then have "int32 (4 * n + 1) = 4 * n + 1" by (intro int32_id) simp_all
  with n show "SegTree_build A n arr = fail LengthError"
    by (simp add: SegTree_build_def SegTree_init_def)
next
  assume n: "1 \<le> n \<and> n < 536870912 \<and> n \<le> int (length arr)"
  define s0 :: "('a, 'b) segtree" where "s0 = \<lparr>tsize = n,
               tree = replicate (nat (4 * n + 1)) (Node_default A),
               hasPending = replicate (nat (4 * n + 1)) False,
               pending = replicate (nat (4 * n + 1)) (Op_default A)\<rparr>"
  have i: "SegTree_init A n = ok s0" using n by (simp add: SegTree_init_ok s0_def)
  have len: "lens (nat (4 * n + 1)) s0" by (simp add: lens_def s0_def)
  have P: "pos (nat (4 * n + 1)) 1 0 (n - 1)" using pos_root n by blast
  have arr: "n - 1 < int (length arr)" using n by simp
  from build_halving [OF P len arr, of A]
  obtain s where s: "build A arr 1 0 (n - 1) s0 = ok s" and f: "frame 1 s0 s"
    and H: "halved A arr s 1 0 (n - 1)" by blast
  have "SegTree_build A n arr = ok s"
    using s by (simp add: SegTree_build_def i build_top_def s0_def)
  moreover have "tsize s = n" using f by (simp add: frame_def s0_def)
  moreover have "\<forall>node st en. position n node st en \<longrightarrow> tree s ! nat node = built A arr st en"
    unfolding position_def using reach_halved [OF _ P H] by blast
  ultimately show "\<exists>s. SegTree_build A n arr = ok s \<and> tsize s = n \<and>
           (\<forall>node st en. position n node st en \<longrightarrow> tree s ! nat node = built A arr st en)"
    by blast
next
  assume "laws A W \<and> 0 \<le> st \<and> st \<le> en"
  then show "built A arr st en = agg A (\<lambda>x. Node_leaf A x (arr ! nat x)) st en"
    using built_agg by blast
qed

theorem construction_witness:
  "SegTree_build MinMax (- 1) [] = fail LengthError \<and>
   SegTree_build MinMax 4 [3, 1, 4, 1] = ok t4 \<and>
   tree t4 ! nat 3 = built MinMax [3, 1, 4, 1] 2 3 \<and>
   built MinMax [3, 1, 4, 1] 2 3 = agg MinMax (\<lambda>x. Node_leaf MinMax x ([3, 1, 4, 1] ! nat x)) 2 3"
proof -
  note c = construction [of "- 1" MinMax "[]"] construction [of 4 MinMax "[3, 1, 4, 1]" set_or_add 2 3]
  from c(1) have 1: "SegTree_build MinMax (- 1) [] = fail LengthError" by simp
  from c(2) have "\<forall>node st en. position 4 node st en \<longrightarrow>
      tree t4 ! nat node = built MinMax [3, 1, 4, 1] st en"
    by (simp add: build_t4)
  from this [rule_format, OF position_4_3]
  have 2: "tree t4 ! nat 3 = built MinMax [3, 1, 4, 1] 2 3" .
  from c(2) MinMax_laws
  have 3: "built MinMax [3, 1, 4, 1] 2 3 = agg MinMax (\<lambda>x. Node_leaf MinMax x ([3, 1, 4, 1] ! nat x)) 2 3"
    by simp
  from 1 2 3 build_t4 show ?thesis by blast
qed

text \<open>A seed of 3 elements with \<open>n = 2\<close> is accepted.\<close>

theorem construction_counterexample:
  "length [0, 0, 7 :: int] \<noteq> 2 \<and> SegTree_build MinMax 2 [0, 0, 7] = ok z2"
  by (simp add: eval_simps z2_def numeral_eq_Suc)

subsection \<open>What a position's stored aggregate reflects\<close>

text \<open>
  C5 (as amended). For template parameters satisfying \<open>laws\<close> and every tree reached from
  a construction, every position \<open>node\<close> with range \<open>[st, en]\<close> stores the join of
  \<open>val A s node st en x\<close> over its range, where \<open>val\<close> is the stored aggregate of the single
  element \<open>x\<close> with the pending updates of the positions from that leaf up to \<open>node\<close>
  itself applied: the stored aggregate reflects the updates applied at the position or
  pushed down to it, its own pending update included before that is pushed to the
  children; the pending updates of the positions above \<open>node\<close> are not in it. A query over
  exactly the range of the position returns normally and leaves every position below
  \<open>node\<close> as it was, and, the default \<^verbatim>\<open>Node\<close> being neutral for the elements of the range,
  it returns the aggregate of the logical content of the range.
\<close>

theorem stored_aggregates:
  assumes L: "laws A W" and R: "reachable A W s" and P: "position (tsize s) node st en"
  shows "tree s ! nat node = agg A (val A s node st en) st en \<and>
         (\<forall>x. val A s node st en x =
            (if st < en then
               pend_apply A s node
                 (if x \<le> mid st en then val A s (left node) st (mid st en) x
                  else val A s (right node) (mid st en + 1) en x) x
             else tree s ! nat node)) \<and>
         (\<exists>s' r. query_top A st en s = ok (s', r) \<and>
            (\<forall>k. insub node k \<and> k \<noteq> node \<longrightarrow> same_at s s' k) \<and>
            ((\<forall>x. st \<le> x \<and> x \<le> en \<longrightarrow> neutral A (elem A s x)) \<longrightarrow>
               r = agg A (elem A s) st en))"
proof (intro conjI)
  have G: "good A W s" using reachable_good [OF L R] .
  then have n: "1 \<le> tsize s" and len: "lens (nat (4 * tsize s + 1)) s"
    and C: "consistent A W s 1 0 (tsize s - 1)" by (simp_all add: good_def)
  note P0 = pos_root [OF n]
  from P have Rc: "reach 1 0 (tsize s - 1) node st en" by (simp add: position_def)
  from reach_pos [OF Rc P0] have st: "0 \<le> st" "st \<le> en" by (auto simp: pos_def)
  from reach_range [OF Rc P0] have en: "en < tsize s" by simp
  show "tree s ! nat node = agg A (val A s node st en) st en"
    using consistent_tree [OF reach_consistent [OF Rc P0 C]] .
  show "\<forall>x. val A s node st en x =
            (if st < en then
               pend_apply A s node
                 (if x \<le> mid st en then val A s (left node) st (mid st en) x
                  else val A s (right node) (mid st en + 1) en x) x
             else tree s ! nat node)"
    using st by (subst val.simps) simp
  from query_lands [OF Rc P0 len, of A]
  obtain s' r where q: "query_top A st en s = ok (s', r)"
    and t: "\<forall>k. insub node k \<and> k \<noteq> node \<longrightarrow> same_at s s' k"
    unfolding query_top_def by blast
  have "r = agg A (elem A s) st en"
    if "\<forall>x. st \<le> x \<and> x \<le> en \<longrightarrow> neutral A (elem A s x)"
  proof -
    from query_top_value [OF L G st en] that
    obtain s'' where "query_top A st en s = ok (s'', agg A (elem A s) st en)" by blast
    with q show ?thesis by simp
  qed
  with q t show "\<exists>s' r. query_top A st en s = ok (s', r) \<and>
            (\<forall>k. insub node k \<and> k \<noteq> node \<longrightarrow> same_at s s' k) \<and>
            ((\<forall>x. st \<le> x \<and> x \<le> en \<longrightarrow> neutral A (elem A s x)) \<longrightarrow>
               r = agg A (elem A s) st en)"
    by blast
qed

theorem stored_aggregates_witness:
  "tree z2_set ! nat 2 = agg MinMax (val MinMax z2_set 2 0 0) 0 0 \<and>
   val MinMax z2_set 2 0 0 0 = tree z2_set ! nat 2 \<and>
   (\<exists>s'. query_top MinMax 0 0 z2_set = ok (s', agg MinMax (elem MinMax z2_set) 0 0))"
proof -
  have P: "position (tsize z2_set) 2 0 0" using position_2_2 by (simp add: z2_set_def)
  note t = stored_aggregates [OF MinMax_laws reachable_z2_set P]
  have G: "good MinMax set_or_add z2"
    using SegTree_build_good [OF MinMax_laws, of 2 "[0, 0]"] by (simp add: build_z2)
  have W5: "set_or_add \<lparr>code = CHR ''s'', arg = 5\<rparr>" by (simp add: set_or_add_def)
  have tz: "tsize z2 = 2" by (simp add: z2_def)
  from update_top_good [OF MinMax_laws W5 G, of 0 1]
  obtain s' where s': "update_top MinMax 0 1 \<lparr>code = CHR ''s'', arg = 5\<rparr> z2 = ok s'"
    and es: "\<forall>x. 0 \<le> x \<and> x < tsize z2 \<longrightarrow>
       elem MinMax s' x = (if 0 \<le> x \<and> x \<le> 1
          then op_apply MinMax \<lparr>code = CHR ''s'', arg = 5\<rparr> (elem MinMax z2 x) x x
          else elem MinMax z2 x)"
    by blast
  from s' have "s' = z2_set" by (simp only: update_z2 ok_inject)
  with es [rule_format, of 0] have e: "elem MinMax z2_set 0 = \<lparr>minVal = 5, maxVal = 5\<rparr>"
    by (simp add: tz Op_apply_def)
  have N: "\<forall>x. (0::int) \<le> x \<and> x \<le> 0 \<longrightarrow> neutral MinMax (elem MinMax z2_set x)"
  proof (intro allI impI)
    fix x :: int assume "0 \<le> x \<and> x \<le> 0"
    then have "x = 0" by simp
    then show "neutral MinMax (elem MinMax z2_set x)"
      by (simp add: e MinMax_neutral INF_int_def)
  qed
  note t1 = t [THEN conjunct1] and t2 = t [THEN conjunct2, THEN conjunct1]
    and t3 = t [THEN conjunct2, THEN conjunct2]
  from t2 [rule_format, of 0] have 2: "val MinMax z2_set 2 0 0 0 = tree z2_set ! nat 2"
    by (simp only: less_irrefl if_False)
  from t3 obtain s1 r where q: "query_top MinMax 0 0 z2_set = ok (s1, r)"
    and r: "(\<forall>x. (0::int) \<le> x \<and> x \<le> 0 \<longrightarrow> neutral MinMax (elem MinMax z2_set x)) \<longrightarrow>
            r = agg MinMax (elem MinMax z2_set) 0 0"
    by blast
  from r N have "r = agg MinMax (elem MinMax z2_set) 0 0" by (rule mp)
  with q have 3: "\<exists>s'. query_top MinMax 0 0 z2_set = ok (s', agg MinMax (elem MinMax z2_set) 0 0)"
    by blast
  from t1 2 3 show ?thesis by (intro conjI)
qed

text \<open>
  A position below one that holds a pending update does not reflect that update: after
  \<open>update(0, 1, set 5)\<close> on the tree of two zeros, position 2 (the range \<open>[0, 0]\<close>, inside
  the target range) still stores 0.
\<close>

theorem stored_aggregates_counterexample:
  "SegTree_build MinMax 2 [0, 0] = ok z2 \<and>
   update_top MinMax 0 1 \<lparr>code = CHR ''s'', arg = 5\<rparr> z2 = ok z2_set \<and>
   tree z2_set ! 2 = \<lparr>minVal = 0, maxVal = 0\<rparr> \<and>
   Op_apply \<lparr>code = CHR ''s'', arg = 5\<rparr> (tree z2 ! 2) 0 0 = \<lparr>minVal = 5, maxVal = 5\<rparr>"
  by (simp add: eval_simps z2_def z2_set_def numeral_eq_Suc)

end
